theory Spec2Isabelle
  imports Main "HOL-Library.Sublist"
begin

section \<open>Strings and the string operations of the parser\<close>

text \<open>
  A Python \<open>str\<close> is a sequence of Unicode code points; a code point is a natural
  number. Literals of the source are written as lists of code points, with the characters
  named in a comment.
\<close>

type_synonym ustring = "nat list"

text \<open>
  The characters for which \<open>str.isspace()\<close> holds. \<open>str.split()\<close>, \<open>str.strip()\<close> and
  the class \<open>\s\<close> of \<open>re\<close> (on \<open>str\<close> patterns) all use this one set:
  U+0009..U+000D, U+001C..U+0020, U+0085, U+00A0, U+1680, U+2000..U+200A, U+2028, U+2029,
  U+202F, U+205F, U+3000.
\<close>

definition is_space :: "nat \<Rightarrow> bool" where
  "is_space c \<longleftrightarrow>
     (9 \<le> c \<and> c \<le> 13) \<or> (28 \<le> c \<and> c \<le> 32) \<or> c = 133 \<or> c = 160 \<or> c = 5760 \<or>
     (8192 \<le> c \<and> c \<le> 8202) \<or> c = 8232 \<or> c = 8233 \<or> c = 8239 \<or> c = 8287 \<or> c = 12288"

text \<open>\<open>s.split()\<close>: the maximal runs of non-whitespace characters, in order.\<close>

function split_ws :: "ustring \<Rightarrow> ustring list" where
  "split_ws [] = []"
| "split_ws (c # cs) =
     (if is_space c then split_ws cs
      else (c # takeWhile (\<lambda>x. \<not> is_space x) cs) # split_ws (dropWhile (\<lambda>x. \<not> is_space x) cs))"
  by pat_completeness auto
termination
  by (relation "measure length") (auto simp: less_Suc_eq_le length_dropWhile_le)

text \<open>\<open>word_count(s)\<close> is \<open>len(s.split())\<close>.\<close>

definition word_count :: "ustring \<Rightarrow> nat" where
  "word_count s = length (split_ws s)"

text \<open>\<open>s.strip()\<close> removes leading and trailing whitespace; \<open>s.strip(q)\<close> removes leading
  and trailing occurrences of the character \<open>q\<close>.\<close>

definition strip :: "ustring \<Rightarrow> ustring" where
  "strip s = rev (dropWhile is_space (rev (dropWhile is_space s)))"

definition strip_char :: "nat \<Rightarrow> ustring \<Rightarrow> ustring" where
  "strip_char q s = rev (dropWhile (\<lambda>c. c = q) (rev (dropWhile (\<lambda>c. c = q) s)))"

text \<open>\<open>s.split(d)\<close> for a one-character separator: always at least one piece.\<close>

fun split_on :: "nat \<Rightarrow> ustring \<Rightarrow> ustring list" where
  "split_on d [] = [[]]"
| "split_on d (c # cs) =
     (if c = d then [] # split_on d cs
      else (case split_on d cs of
              [] \<Rightarrow> [[c]]
            | w # ws \<Rightarrow> (c # w) # ws))"

text \<open>\<open>sep.join(ws)\<close>.\<close>

fun join :: "ustring \<Rightarrow> ustring list \<Rightarrow> ustring" where
  "join sep [] = []"
| "join sep [w] = w"
| "join sep (w # v # ws) = w @ sep @ join sep (v # ws)"

text \<open>
  \<open>re.sub\<close> and \<open>str.replace\<close> scan the text from left to right. At each position the
  pattern is tried; on a match the replacement is emitted and the scan resumes after the
  matched span, otherwise the character is copied and the scan moves one character on.
  A pattern is given by its matcher: from the character before the position (needed by
  \<open>\b\<close>) and the rest of the text, the length of the match and the replacement for it.
  No pattern of the parser matches the empty string.
\<close>

type_synonym matcher = "nat option \<Rightarrow> ustring \<Rightarrow> (nat \<times> ustring) option"

fun re_sub :: "matcher \<Rightarrow> nat option \<Rightarrow> ustring \<Rightarrow> ustring" where
  "re_sub m prev [] = []"
| "re_sub m prev (c # cs) =
     (case m prev (c # cs) of
        None \<Rightarrow> c # re_sub m (Some c) cs
      | Some (n, rep) \<Rightarrow> rep @ re_sub m (Some (last (c # take (n - 1) cs))) (drop (n - 1) cs))"

text \<open>A pattern that is an alternation of literals, \<open>a1|a2|...\<close>: the first alternative, in
  the order written, that is a prefix of the rest of the text. The replacement is fixed.\<close>

definition alt_matcher :: "ustring list \<Rightarrow> ustring \<Rightarrow> matcher" where
  "alt_matcher alts rep prev s =
     (case find (\<lambda>a. prefix a s) alts of
        None \<Rightarrow> None
      | Some a \<Rightarrow> Some (length a, rep))"

text \<open>\<open>\s+\<close> replaced by one space (U+0020).\<close>

definition ws_matcher :: matcher where
  "ws_matcher prev s =
     (let n = length (takeWhile is_space s) in if 1 \<le> n then Some (n, [32]) else None)"

definition collapse_ws :: "ustring \<Rightarrow> ustring" where
  "collapse_ws s = re_sub ws_matcher None s"

text \<open>\<open>re.search\<close> of an alternation of literals: some alternative occurs somewhere.\<close>

fun re_search :: "ustring list \<Rightarrow> ustring \<Rightarrow> bool" where
  "re_search alts [] = list_ex (\<lambda>a. prefix a []) alts"
| "re_search alts (c # cs) = (list_ex (\<lambda>a. prefix a (c # cs)) alts \<or> re_search alts cs)"

section \<open>English text normalization\<close>

text \<open>
  \<^verbatim>\<open>text_en = row_dict.get('text_en') or ''\<close>, then
  \<^verbatim>\<open>if text_en.startswith('"'): text_en = text_en.strip('"')\<close> and
  \<^verbatim>\<open>text_en = re.sub(r'"{2,}', '"', text_en)\<close>. The quote is U+0022.
\<close>

definition or_empty :: "ustring option \<Rightarrow> ustring" where
  "or_empty v = (case v of None \<Rightarrow> [] | Some s \<Rightarrow> s)"

definition quotes_matcher :: matcher where
  "quotes_matcher prev s =
     (let n = length (takeWhile (\<lambda>c. c = 34) s) in if 2 \<le> n then Some (n, [34]) else None)"

definition normalize_en :: "ustring option \<Rightarrow> ustring" where
  "normalize_en v =
     (let text_en = or_empty v;
          text_en = (if prefix [34] text_en then strip_char 34 text_en else text_en)
      in re_sub quotes_matcher None text_en)"

section \<open>Arabic text normalization\<close>

text \<open>The class \<^verbatim>\<open>[:"'\<close>U+060C U+06D4 U+0640\<^verbatim>\<open>\-\.,]\<close>: colon, double quote, single quote,
  Arabic comma, Arabic full stop, tatweel, hyphen, period, comma.\<close>

definition is_punct :: "nat \<Rightarrow> bool" where
  "is_punct c \<longleftrightarrow> c \<in> set [58, 34, 39, 1548, 1748, 1600, 45, 46, 44]"

text \<open>The four honorifics, in the order of the source: radiya (U+0631 U+0636 U+0649)
  allah (U+0627 U+0644 U+0644 U+0647) followed by anha, anhuma, anhum, anhu.\<close>

definition honorifics :: "ustring list" where
  "honorifics =
    [[1585, 1590, 1609, 32, 1575, 1604, 1604, 1607, 32, 1593, 1606, 1607, 1575],
     [1585, 1590, 1609, 32, 1575, 1604, 1604, 1607, 32, 1593, 1606, 1607, 1605, 1575],
     [1585, 1590, 1609, 32, 1575, 1604, 1604, 1607, 32, 1593, 1606, 1607, 1605],
     [1585, 1590, 1609, 32, 1575, 1604, 1604, 1607, 32, 1593, 1606, 1607]]"

text \<open>The benediction: salla allah alayhi wa-sallam.\<close>

definition benediction :: ustring where
  "benediction =
    [1589, 1604, 1609, 32, 1575, 1604, 1604, 1607, 32, 1593, 1604, 1610, 1607, 32,
     1608, 1587, 1604, 1605]"

definition remove_punct :: "ustring \<Rightarrow> ustring" where
  "remove_punct s = filter (\<lambda>c. \<not> is_punct c) s"

definition remove_honorifics :: "ustring \<Rightarrow> ustring" where
  "remove_honorifics s = re_sub (alt_matcher honorifics []) None s"

definition remove_benediction :: "ustring \<Rightarrow> ustring" where
  "remove_benediction s = re_sub (alt_matcher [benediction] []) None s"

definition normalize :: "ustring \<Rightarrow> ustring" where
  "normalize s =
     (if s = [] then []
      else strip (collapse_ws (remove_benediction (remove_honorifics (remove_punct s)))))"

section \<open>Marking the narration keywords\<close>

text \<open>\<open>arabic_diacritics\<close>: U+0610..U+061A, U+064B..U+065F, U+0670, U+06D6..U+06ED.\<close>

definition is_diacritic :: "nat \<Rightarrow> bool" where
  "is_diacritic c \<longleftrightarrow>
     (1552 \<le> c \<and> c \<le> 1562) \<or> (1611 \<le> c \<and> c \<le> 1631) \<or> c = 1648 \<or> (1750 \<le> c \<and> c \<le> 1773)"

definition remove_diacritics :: "ustring \<Rightarrow> ustring" where
  "remove_diacritics s = filter (\<lambda>c. \<not> is_diacritic c) s"

text \<open>\<open>chain_keywords\<close>, in the order of the source.\<close>

definition chain_keywords :: "ustring list" where
  "chain_keywords =
    [[1581, 1583, 1579, 1606, 1575],
     [1581, 1583, 1579, 1606, 1610],
     [1581, 1583, 1579, 1606, 1575, 1607],
     [1581, 1583, 1579, 1607],
     [1579, 1606, 1575],
     [1571, 1582, 1576, 1585, 1606, 1575],
     [1571, 1582, 1576, 1585, 1606, 1575, 1607],
     [1571, 1582, 1576, 1585, 1606, 1610],
     [1571, 1582, 1576, 1585, 1607],
     [1587, 1605, 1593, 1578],
     [1587, 1605, 1593, 1606, 1575],
     [1587, 1605, 1593, 1606, 1575, 1607],
     [1587, 1605, 1593],
     [1593, 1606],
     [1593, 1606, 1607],
     [1593, 1606, 1607, 1575],
     [1610, 1576, 1604, 1594, 32, 1576, 1607],
     [1571, 1606, 1607],
     [1571, 1606],
     [1571, 1606, 1607, 1575],
     [1602, 1575, 1604],
     [1602, 1575, 1604, 1578]]"

text \<open>
  \<open>\b\<close> holds at a position when exactly one of the characters before and after it is a
  word character (\<open>\w\<close>); the start and the end of the text count as non-word. Which code
  points are word characters is decided by Python's Unicode tables, which are no part of
  the repository: the classification is the parameter \<open>wordc\<close> of the model.
\<close>

definition is_wordc :: "(nat \<Rightarrow> bool) \<Rightarrow> nat option \<Rightarrow> bool" where
  "is_wordc wordc v = (case v of None \<Rightarrow> False | Some c \<Rightarrow> wordc c)"

definition word_boundary :: "(nat \<Rightarrow> bool) \<Rightarrow> nat option \<Rightarrow> nat option \<Rightarrow> bool" where
  "word_boundary wordc before after \<longleftrightarrow> is_wordc wordc before \<noteq> is_wordc wordc after"

fun head_opt :: "ustring \<Rightarrow> nat option" where
  "head_opt [] = None"
| "head_opt (c # cs) = Some c"

text \<open>The group \<open>(k1|k2|...)\b\<close> at the start of \<open>s\<close>: the first keyword, in the order
  written, that is a prefix of \<open>s\<close> and ends at a word boundary.\<close>

definition keyword_at :: "(nat \<Rightarrow> bool) \<Rightarrow> ustring \<Rightarrow> ustring option" where
  "keyword_at wordc s =
     find (\<lambda>k. prefix k s \<and>
               word_boundary wordc (Some (last k)) (head_opt (drop (length k) s)))
          chain_keywords"

text \<open>
  The pattern \<open>\b\<close>waw\<open>?(k1|k2|...)\b\<close>: a word boundary, then the optional
  conjunction waw (U+0648), tried first with the waw consumed and then without, then a
  keyword. The result is the length of the matched span and the text of group 1, which is
  the keyword without the waw.
\<close>

definition keyword_span :: "(nat \<Rightarrow> bool) \<Rightarrow> nat option \<Rightarrow> ustring \<Rightarrow> (nat \<times> ustring) option" where
  "keyword_span wordc prev s =
     (if \<not> word_boundary wordc prev (head_opt s) then None
      else case (case s of [] \<Rightarrow> None
                 | c # cs \<Rightarrow> if c = 1608 then keyword_at wordc cs else None) of
             Some k \<Rightarrow> Some (Suc (length k), k)
           | None \<Rightarrow> (case keyword_at wordc s of
                         Some k \<Rightarrow> Some (length k, k)
                       | None \<Rightarrow> None))"

text \<open>The replacement \<^verbatim>\<open>'~ \1'\<close>: the marker \<open>~\<close> (U+007E), a space and group 1.\<close>

definition keyword_matcher :: "(nat \<Rightarrow> bool) \<Rightarrow> matcher" where
  "keyword_matcher wordc prev s =
     (case keyword_span wordc prev s of
        None \<Rightarrow> None
      | Some (n, k) \<Rightarrow> Some (n, [126, 32] @ k))"

definition mark_keywords :: "(nat \<Rightarrow> bool) \<Rightarrow> ustring \<Rightarrow> ustring" where
  "mark_keywords wordc s = re_sub (keyword_matcher wordc) None s"

definition mark :: "(nat \<Rightarrow> bool) \<Rightarrow> ustring \<Rightarrow> ustring" where
  "mark wordc s = strip (collapse_ws (mark_keywords wordc (remove_diacritics s)))"

section \<open>Finding the start of the body\<close>

datatype error = IndexError

text \<open>\<open>xs[j]\<close> and \<open>xs[-1]\<close> raise \<open>IndexError\<close> out of range.\<close>

definition index :: "'a list \<Rightarrow> nat \<Rightarrow> error + 'a" where
  "index xs j = (if j < length xs then Inr (xs ! j) else Inl IndexError)"

definition index_last :: "'a list \<Rightarrow> error + 'a" where
  "index_last xs = (case xs of [] \<Rightarrow> Inl IndexError | _ # _ \<Rightarrow> Inr (last xs))"

text \<open>\<^verbatim>\<open>[s.strip() for s in text_marked.split('~') if s.strip()]\<close>\<close>

definition chain_delims_of :: "ustring \<Rightarrow> ustring list" where
  "chain_delims_of text_marked =
     map strip (filter (\<lambda>s. strip s \<noteq> []) (split_on 126 text_marked))"

text \<open>Heuristic 1: the segment mentions nabi (U+0646 U+0628 U+064A) or rasul
  (U+0631 U+0633 U+0648 U+0644).\<close>

definition h1 :: "ustring \<Rightarrow> bool" where
  "h1 delim = re_search [[1606, 1576, 1610], [1585, 1587, 1608, 1604]] delim"

text \<open>The pattern of heuristic 2: a space, bin (U+0628 U+0646) or ibn (U+0627 U+0628 U+0646),
  a space.\<close>

definition has_ibn :: "ustring \<Rightarrow> bool" where
  "has_ibn delim = re_search [[32, 1576, 1606, 32], [32, 1575, 1576, 1606, 32]] delim"

text \<open>
  The loop \<^verbatim>\<open>for j, delim in enumerate(chain_delims)\<close>, from index \<open>j\<close> with the segments
  still to visit. It returns \<open>body_marked\<close>: set at the \<open>break\<close>, or still empty when the
  loop runs to its end.
\<close>

fun scan :: "ustring list \<Rightarrow> nat list \<Rightarrow> nat \<Rightarrow> ustring list \<Rightarrow> error + ustring" where
  "scan chain_delims counts j [] = Inr []"
| "scan chain_delims counts j (delim # rest) =
     (if h1 delim then Inr (join [126] (drop j chain_delims))
      else case index counts j of
             Inl e \<Rightarrow> Inl e
           | Inr n \<Rightarrow>
               if 7 < n \<and> \<not> has_ibn delim then Inr (join [126] (drop j chain_delims))
               else scan chain_delims counts (Suc j) rest)"

text \<open>\<open>s.replace('~', ' ')\<close>.\<close>

definition tilde_to_space :: "ustring \<Rightarrow> ustring" where
  "tilde_to_space s = map (\<lambda>c. if c = 126 then 32 else c) s"

definition find_body :: "ustring \<Rightarrow> error + ustring" where
  "find_body text_marked =
     (let chain_delims = chain_delims_of text_marked in
      case (if chain_delims \<noteq> [] then
              (case scan chain_delims (map word_count chain_delims) 0 chain_delims of
                 Inl e \<Rightarrow> Inl e
               | Inr body_marked \<Rightarrow>
                   if body_marked = [] then index_last chain_delims else Inr body_marked)
            else Inr []) of
        Inl e \<Rightarrow> Inl e
      | Inr body_marked \<Rightarrow> Inr (strip (tilde_to_space body_marked)))"

section \<open>Applying the split to the normalized text\<close>

definition realign :: "ustring \<Rightarrow> ustring \<Rightarrow> ustring \<times> ustring" where
  "realign txt body_marked =
     (let text_toks = split_ws txt;
          body_marked_toks = split_ws body_marked
      in if text_toks = [] \<or> body_marked_toks = [] \<or> length text_toks \<le> length body_marked_toks
         then ([], txt)
         else (let diff = length text_toks - length body_marked_toks
               in (strip (join [32] (take diff text_toks)),
                   strip (join [32] (drop diff text_toks)))))"

text \<open>The core on one text: normalization, marking, boundary, realignment. The result is
  the pair of \<open>chain\<close> and \<open>body\<close>.\<close>

definition segment :: "(nat \<Rightarrow> bool) \<Rightarrow> ustring \<Rightarrow> error + (ustring \<times> ustring)" where
  "segment wordc raw =
     (let txt = normalize raw in
      case find_body (mark wordc txt) of
        Inl e \<Rightarrow> Inl e
      | Inr body_marked \<Rightarrow> Inr (realign txt body_marked))"

text \<open>One row of the table \<open>hadiths\<close>, and the body of the loop over the rows up to the
  parameters of the update.\<close>

record hadith =
  bookId :: nat
  num :: nat
  text_en :: "ustring option"
  body_en :: "ustring option"
  text_ar :: "ustring option"
  chain_ar :: "ustring option"
  body_ar :: "ustring option"

definition process_row :: "(nat \<Rightarrow> bool) \<Rightarrow> hadith \<Rightarrow> error + hadith" where
  "process_row wordc row =
     (let en = normalize_en (text_en row);
          txt = normalize (or_empty (text_ar row))
      in case find_body (mark wordc txt) of
           Inl e \<Rightarrow> Inl e
         | Inr body_marked \<Rightarrow>
             (let (c, b) = realign txt body_marked
              in Inr (row\<lparr>text_en := Some en, body_en := Some en, text_ar := Some txt,
                         chain_ar := Some c, body_ar := Some b\<rparr>)))"

text \<open>Python's \<open>\w\<close> on Basic Latin and on the Arabic block U+0600..U+06FF, the blocks of
  the vocabulary: digits, letters and the underscore; the Arabic letters U+0620..U+064A,
  the digits U+0660..U+0669, and the letters U+066E, U+066F, U+0671..U+06D3, U+06D5, U+06E5,
  U+06E6, U+06EE..U+06FC, U+06FF.\<close>

definition arabic_wordc :: "nat \<Rightarrow> bool" where
  "arabic_wordc c \<longleftrightarrow>
     (48 \<le> c \<and> c \<le> 57) \<or> (65 \<le> c \<and> c \<le> 90) \<or> c = 95 \<or> (97 \<le> c \<and> c \<le> 122) \<or>
     (1568 \<le> c \<and> c \<le> 1610) \<or> (1632 \<le> c \<and> c \<le> 1641) \<or> c = 1646 \<or> c = 1647 \<or>
     (1649 \<le> c \<and> c \<le> 1747) \<or> c = 1749 \<or> c = 1765 \<or> c = 1766 \<or>
     (1774 \<le> c \<and> c \<le> 1788) \<or> c = 1791"

section \<open>Notions used in the statements\<close>

text \<open>A word, as \<open>split()\<close> returns it: not empty and free of whitespace.\<close>

definition is_word :: "ustring \<Rightarrow> bool" where
  "is_word w \<longleftrightarrow> w \<noteq> [] \<and> list_all (\<lambda>c. \<not> is_space c) w"

definition wordlist :: "ustring list \<Rightarrow> bool" where
  "wordlist ws \<longleftrightarrow> list_all is_word ws"

text \<open>Heuristic 2, the condition of the \<open>elif\<close>: more than seven words and no match
  of the pattern for bin and ibn.\<close>

definition h2 :: "ustring \<Rightarrow> bool" where
  "h2 delim \<longleftrightarrow> 7 < word_count delim \<and> \<not> has_ibn delim"

text \<open>What every element of \<open>chain_delims\<close> satisfies: it is not empty, it neither starts
  nor ends with whitespace, and it is free of the marker.\<close>

definition segment_ok :: "ustring \<Rightarrow> bool" where
  "segment_ok s \<longleftrightarrow> s \<noteq> [] \<and> \<not> is_space (hd s) \<and> \<not> is_space (last s) \<and> 126 \<notin> set s"

text \<open>
  The number of words that \<open>realign\<close> gives to the chain: \<open>diff\<close> in the second branch,
  and no word in the first one, where the whole text is the body.
\<close>

definition cut_index :: "ustring list \<Rightarrow> ustring list \<Rightarrow> nat" where
  "cut_index text_toks body_marked_toks =
     (if text_toks = [] \<or> body_marked_toks = [] \<or> length text_toks \<le> length body_marked_toks
      then 0 else length text_toks - length body_marked_toks)"

text \<open>Collapsing every run of two or more quotes (U+0022) into one, in the words of the
  specification.\<close>

fun squeeze_quotes :: "ustring \<Rightarrow> ustring" where
  "squeeze_quotes [] = []"
| "squeeze_quotes [c] = [c]"
| "squeeze_quotes (c # d # cs) =
     (if c = 34 \<and> d = 34 then squeeze_quotes (d # cs) else c # squeeze_quotes (d # cs))"

text \<open>A text cut into stretches \<open>g0, g1, ...\<close> with a deleted span \<open>m0, m1, ...\<close> between
  each two of them: \<open>g0 m0 g1 m1 ... gn\<close>.\<close>

fun weave :: "ustring list \<Rightarrow> ustring list \<Rightarrow> ustring" where
  "weave [] ms = []"
| "weave (g # gs) [] = g @ concat gs"
| "weave (g # gs) (m # ms) = g @ m @ weave gs ms"

text \<open>The text in which every span matched by the keyword pattern, the keyword with a waw
  attached in front of it if there is one, is replaced by a space and the keyword alone.\<close>

definition respace :: "(nat \<Rightarrow> bool) \<Rightarrow> ustring \<Rightarrow> ustring" where
  "respace wordc s =
     re_sub (\<lambda>prev s. case keyword_span wordc prev s of
                         None \<Rightarrow> None
                       | Some (n, k) \<Rightarrow> Some (n, 32 # k)) None s"

section \<open>Words, joining and trimming\<close>

lemma is_space_32: "is_space 32"
  by (simp add: is_space_def)

lemma list_all_takeWhile: "list_all P (takeWhile P xs)"
  by (induction xs) simp_all

lemma takeWhile_list_all: "list_all P xs \<Longrightarrow> takeWhile P (xs @ ys) = xs @ takeWhile P ys"
  by (induction xs) simp_all

lemma dropWhile_list_all: "list_all P xs \<Longrightarrow> dropWhile P (xs @ ys) = dropWhile P ys"
  by (induction xs) simp_all

lemma wordlist_split_ws: "wordlist (split_ws s)"
proof (induction s rule: split_ws.induct)
  case 1
  show ?case by (simp add: wordlist_def)
next
  case (2 c cs)
  show ?case
  proof (cases "is_space c")
    case True
    then show ?thesis using 2 by simp
  next
    case False
    then show ?thesis using 2(2)
      by (simp add: wordlist_def is_word_def list_all_takeWhile)
  qed
qed

lemma split_ws_word_app:
  "is_word w \<Longrightarrow> split_ws (w @ 32 # s) = w # split_ws s"
proof (cases w)
  case Nil
  assume "is_word w" then show ?thesis using Nil by (simp add: is_word_def)
next
  case (Cons a v)
  assume "is_word w"
  then have a: "\<not> is_space a" and v: "list_all (\<lambda>c. \<not> is_space c) v"
    using Cons by (simp_all add: is_word_def)
  have tw: "takeWhile (\<lambda>x. \<not> is_space x) (v @ 32 # s) = v"
    by (simp add: takeWhile_list_all[OF v] is_space_32)
  have dw: "dropWhile (\<lambda>x. \<not> is_space x) (v @ 32 # s) = 32 # s"
    by (simp add: dropWhile_list_all[OF v] is_space_32)
  show ?thesis using a by (simp add: Cons tw dw is_space_32)
qed

lemma split_ws_word: "is_word w \<Longrightarrow> split_ws w = [w]"
proof (cases w)
  case Nil
  assume "is_word w" then show ?thesis using Nil by (simp add: is_word_def)
next
  case (Cons a v)
  assume "is_word w"
  then have a: "\<not> is_space a" and v: "list_all (\<lambda>c. \<not> is_space c) v"
    using Cons by (simp_all add: is_word_def)
  have tw: "takeWhile (\<lambda>x. \<not> is_space x) v = v"
    using takeWhile_list_all[OF v, of "[]"] by simp
  have dw: "dropWhile (\<lambda>x. \<not> is_space x) v = []"
    using dropWhile_list_all[OF v, of "[]"] by simp
  show ?thesis using a by (simp add: Cons tw dw)
qed

lemma split_ws_join: "wordlist ws \<Longrightarrow> split_ws (join [32] ws) = ws"
proof (induction "[32::nat]" ws rule: join.induct)
  case 1 then show ?case by simp
next
  case (2 w) then show ?case by (simp add: wordlist_def split_ws_word)
next
  case (3 w v ws)
  then show ?case by (simp add: wordlist_def split_ws_word_app)
qed

lemma split_ws_dropWhile: "split_ws (dropWhile is_space s) = split_ws s"
  by (induction s) simp_all

lemma split_ws_all_space: "list_all is_space s \<Longrightarrow> split_ws s = []"
  by (induction s) simp_all

lemma takeWhile_app_gen:
  "takeWhile P (xs @ ys) = takeWhile P xs @ (if dropWhile P xs = [] then takeWhile P ys else [])"
  by (induction xs) simp_all

lemma dropWhile_app_gen:
  "dropWhile P (xs @ ys) = (if dropWhile P xs = [] then dropWhile P ys else dropWhile P xs @ ys)"
  by (induction xs) simp_all

lemma split_ws_append_space: "list_all is_space t \<Longrightarrow> split_ws (s @ t) = split_ws s"
proof (induction s rule: split_ws.induct)
  case 1 then show ?case by (simp add: split_ws_all_space)
next
  case (2 c cs)
  let ?P = "\<lambda>x. \<not> is_space x"
  have t0: "takeWhile ?P t = []" "dropWhile ?P t = t"
    using 2(3) by (cases t; simp)+
  show ?case
  proof (cases "is_space c")
    case True then show ?thesis using 2 by simp
  next
    case False
    show ?thesis
    proof (cases "dropWhile ?P cs = []")
      case True
      have a: "split_ws (dropWhile ?P cs) = []" by (simp only: True split_ws.simps)
      have b: "takeWhile ?P (cs @ t) = takeWhile ?P cs" "dropWhile ?P (cs @ t) = t"
        by (simp_all only: takeWhile_app_gen dropWhile_app_gen True t0 simp_thms if_True append_Nil2)
      show ?thesis using False split_ws_all_space[OF 2(3)]
        by (simp only: append_Cons split_ws.simps if_False a b)
    next
      case F2: False
      have b: "takeWhile ?P (cs @ t) = takeWhile ?P cs"
              "dropWhile ?P (cs @ t) = dropWhile ?P cs @ t"
        by (simp_all only: takeWhile_app_gen dropWhile_app_gen F2 if_False append_Nil2)
      show ?thesis using False
        by (simp only: append_Cons split_ws.simps if_False b 2(2)[OF False 2(3)])
    qed
  qed
qed

lemma rstrip_decomp: "\<exists>t. s = rev (dropWhile P (rev s)) @ t \<and> list_all P t"
proof -
  have "rev (takeWhile P (rev s) @ dropWhile P (rev s)) = s"
    by (simp only: takeWhile_dropWhile_id rev_rev_ident)
  then have a: "s = rev (dropWhile P (rev s)) @ rev (takeWhile P (rev s))"
    by (simp only: rev_append)
  have b: "list_all P (rev (takeWhile P (rev s)))"
    by (simp add: list_all_takeWhile)
  show ?thesis
    by (intro exI[of _ "rev (takeWhile P (rev s))"] conjI a b)
qed

lemma split_ws_strip: "split_ws (strip s) = split_ws s"
proof -
  obtain t where t: "dropWhile is_space s = strip s @ t" "list_all is_space t"
    unfolding strip_def using rstrip_decomp[of "dropWhile is_space s" is_space] by blast
  have "split_ws s = split_ws (dropWhile is_space s)" by (simp add: split_ws_dropWhile)
  also have "\<dots> = split_ws (strip s @ t)" by (simp only: t(1))
  also have "\<dots> = split_ws (strip s)" by (rule split_ws_append_space[OF t(2)])
  finally show ?thesis by simp
qed

lemma strip_core:
  assumes "s \<noteq> []" "\<not> is_space (hd s)" "\<not> is_space (last s)"
    and "list_all is_space a" "list_all is_space b"
  shows "strip (a @ s @ b) = s"
proof -
  obtain x xs where s: "s = x # xs" using assms(1) by (cases s) auto
  have x: "\<not> is_space x" using assms(2) s by simp
  have 1: "dropWhile is_space (a @ s @ b) = s @ b"
    using x by (simp add: dropWhile_list_all[OF assms(4)] s)
  obtain y ys where r: "rev s = y # ys" using assms(1) by (cases "rev s") auto
  have y: "\<not> is_space y" using assms(3) r assms(1) by (simp add: last_rev[symmetric] del: last_rev) 
  have rb: "list_all is_space (rev b)" using assms(5) by (simp add: list_all_iff)
  have 2: "dropWhile is_space (rev (s @ b)) = rev s"
    using y by (simp add: dropWhile_list_all[OF rb] r)
  show ?thesis by (simp only: strip_def 1 2 rev_rev_ident)
qed

lemma strip_all_space:
  assumes "list_all is_space a"
  shows "strip a = []"
proof -
  have "dropWhile is_space (a @ []) = []"
    by (simp only: dropWhile_list_all[OF assms] dropWhile.simps)
  then have "dropWhile is_space a = []" by (simp only: append_Nil2)
  then show ?thesis by (simp only: strip_def rev.simps dropWhile.simps)
qed

lemma join_Cons_Cons: "join sep ((c # w) # ws) = c # join sep (w # ws)"
  by (cases ws) simp_all

lemma join_word_ends:
  "wordlist ws \<Longrightarrow> ws \<noteq> [] \<Longrightarrow>
   join [32] ws \<noteq> [] \<and> \<not> is_space (hd (join [32] ws)) \<and> \<not> is_space (last (join [32] ws))"
proof (induction "[32::nat]" ws rule: join.induct)
  case 1 then show ?case by simp
next
  case (2 w)
  then have w: "w \<noteq> []" "list_all (\<lambda>c. \<not> is_space c) w"
    by (simp_all add: wordlist_def is_word_def)
  have "\<not> is_space (hd w)" using w by (cases w) simp_all
  moreover have "\<not> is_space (last w)" using w by (induction w) (simp_all split: if_splits)
  ultimately show ?case using w by simp
next
  case (3 w v ws)
  then have w: "w \<noteq> []" "list_all (\<lambda>c. \<not> is_space c) w" and r: "wordlist (v # ws)"
    by (simp_all add: wordlist_def is_word_def)
  have "\<not> is_space (hd w)" using w by (cases w) simp_all
  then show ?case using 3(1)[OF r] w by simp
qed

lemma strip_join: "wordlist ws \<Longrightarrow> strip (join [32] ws) = join [32] ws"
proof (cases "ws = []")
  case True then show ?thesis by (simp add: strip_def)
next
  case False
  assume "wordlist ws"
  from join_word_ends[OF this False] show ?thesis
    using strip_core[of "join [32] ws" "[]" "[]"] by simp
qed

lemma re_sub_ws_Cons:
  "re_sub ws_matcher p (c # cs) =
     (if is_space c
      then 32 # re_sub ws_matcher (Some (last (c # takeWhile is_space cs))) (dropWhile is_space cs)
      else c # re_sub ws_matcher (Some c) cs)"
proof (cases "is_space c")
  case True
  then have m: "ws_matcher p (c # cs) = Some (Suc (length (takeWhile is_space cs)), [32])"
    by (simp add: ws_matcher_def)
  show ?thesis using True
    by (simp add: m flip: takeWhile_eq_take dropWhile_eq_drop)
next
  case False
  then have m: "ws_matcher p (c # cs) = None"
    by (simp add: ws_matcher_def)
  show ?thesis using False by (simp add: m)
qed

lemma split_ws_Nil_iff: "split_ws s = [] \<longleftrightarrow> list_all is_space s"
  by (induction s) simp_all

lemma last_dropWhile: "dropWhile P xs \<noteq> [] \<Longrightarrow> last (dropWhile P xs) = last xs"
  by (induction xs) (auto split: if_splits)

lemma hd_dropWhile_not: "dropWhile P xs \<noteq> [] \<Longrightarrow> \<not> P (hd (dropWhile P xs))"
  by (rule hd_dropWhile)

lemma list_all_last: "list_all P xs \<Longrightarrow> xs \<noteq> [] \<Longrightarrow> P (last xs)"
  by (induction xs) auto

lemma join_split_Cons_word:
  assumes "\<not> is_space c"
  shows "join [32] (split_ws (c # cs)) @
           (if split_ws (c # cs) \<noteq> [] \<and> is_space (last (c # cs)) then [32] else []) =
         c # (if cs \<noteq> [] \<and> is_space (hd cs) then [32] else []) @ join [32] (split_ws cs) @
           (if split_ws cs \<noteq> [] \<and> is_space (last cs) then [32] else [])"
proof (cases cs)
  case Nil
  then show ?thesis using assms by simp
next
  case (Cons d ds)
  show ?thesis
  proof (cases "is_space d")
    case True
    show ?thesis
    proof (cases "split_ws ds")
      case Nil
      then have "list_all is_space ds" by (simp add: split_ws_Nil_iff)
      then have "is_space (last (d # ds))" using True list_all_last[of is_space "d # ds"] by simp
      then show ?thesis using assms True Nil Cons by simp
    next
      case (Cons w ws)
      then show ?thesis using assms True \<open>cs = d # ds\<close> by simp
    qed
  next
    case False
    then show ?thesis using assms Cons by (simp add: join_Cons_Cons)
  qed
qed

lemma collapse_char:
  "re_sub ws_matcher p s =
     (if s \<noteq> [] \<and> is_space (hd s) then [32] else []) @ join [32] (split_ws s) @
     (if split_ws s \<noteq> [] \<and> is_space (last s) then [32] else [])"
proof (induction "length s" arbitrary: s p rule: less_induct)
  case less
  show ?case
  proof (cases s)
    case Nil then show ?thesis by simp
  next
    case (Cons c cs)
    show ?thesis
    proof (cases "is_space c")
      case True
      let ?r = "dropWhile is_space cs"
      have len: "length ?r < length s" using Cons by (simp add: less_Suc_eq_le length_dropWhile_le)
      note ih = less[OF len]
      have sw: "split_ws s = split_ws ?r" using Cons True by (simp add: split_ws_dropWhile)
      have step: "re_sub ws_matcher p s = 32 # re_sub ws_matcher (Some (last (c # takeWhile is_space cs))) ?r"
        using Cons True by (simp only: re_sub_ws_Cons if_True)
      show ?thesis
      proof (cases "?r = []")
        case T2: True
        have e: "split_ws s = []" by (simp only: sw T2 split_ws.simps)
        have "re_sub ws_matcher p s = [32]" by (simp only: step T2 re_sub.simps)
        then show ?thesis using Cons True e by simp
      next
        case F2: False
        have h: "\<not> is_space (hd ?r)" using hd_dropWhile_not[OF F2] .
        have l: "last s = last ?r" using last_dropWhile[OF F2] Cons F2 by (cases cs) auto
        have ihr: "re_sub ws_matcher (Some (last (c # takeWhile is_space cs))) ?r =
            join [32] (split_ws ?r) @
            (if split_ws ?r \<noteq> [] \<and> is_space (last ?r) then [32] else [])"
          using h F2 by (simp only: ih if_False simp_thms append_Nil)
        have lead: "(if s \<noteq> [] \<and> is_space (hd s) then [32] else []) = [32::nat]"
          using Cons True by simp
        show ?thesis by (simp only: lead step ihr sw l append_Cons append_Nil)
      qed
    next
      case False
      have len: "length cs < length s" using Cons by simp
      note ih = less[OF len, of "Some c"]
      have r: "re_sub ws_matcher p (c # cs) = c # re_sub ws_matcher (Some c) cs"
        using False by (simp only: re_sub_ws_Cons if_False)
      have lead: "(if c # cs \<noteq> [] \<and> is_space (hd (c # cs)) then [32] else []) = ([]::nat list)"
        using False by simp
      show ?thesis unfolding Cons
        by (simp only: lead r ih append_Nil join_split_Cons_word[OF False])
    qed
  qed
qed

section \<open>Normalized texts and the realignment\<close>

lemma strip_collapse_ws: "strip (collapse_ws s) = join [32] (split_ws s)"
proof (cases "split_ws s = []")
  case True
  have "list_all is_space (if s \<noteq> [] \<and> is_space (hd s) then [32] else [])"
    by (simp add: is_space_32)
  from strip_all_space[OF this] show ?thesis
    by (simp add: collapse_ws_def collapse_char[of None s] True)
next
  case False
  let ?a = "if s \<noteq> [] \<and> is_space (hd s) then [32] else []"
  let ?b = "if split_ws s \<noteq> [] \<and> is_space (last s) then [32] else []"
  have a: "list_all is_space ?a" and b: "list_all is_space ?b"
    by (simp_all add: is_space_32)
  from join_word_ends[OF wordlist_split_ws False]
  have "strip (?a @ join [32] (split_ws s) @ ?b) = join [32] (split_ws s)"
    using strip_core[OF _ _ _ a b] by blast
  then show ?thesis by (simp only: collapse_ws_def collapse_char[of None s])
qed

lemma split_ws_strip_collapse: "split_ws (strip (collapse_ws s)) = split_ws s"
  by (simp only: strip_collapse_ws split_ws_join[OF wordlist_split_ws])

lemma normalize_tidy: "join [32] (split_ws (normalize s)) = normalize s"
proof (cases "s = []")
  case True then show ?thesis by (simp add: normalize_def)
next
  case False
  then show ?thesis
    by (simp only: normalize_def if_False split_ws_strip_collapse) (simp only: strip_collapse_ws)
qed

lemma wordlist_take: "wordlist ws \<Longrightarrow> wordlist (take n ws)"
  unfolding wordlist_def list_all_iff by (blast dest: in_set_takeD)

lemma wordlist_drop: "wordlist ws \<Longrightarrow> wordlist (drop n ws)"
  unfolding wordlist_def list_all_iff by (blast dest: in_set_dropD)

lemma join_append_words:
  "wordlist xs \<Longrightarrow> wordlist ys \<Longrightarrow>
   split_ws (strip (join [32] xs @ [32] @ join [32] ys)) = xs @ ys"
proof -
  assume xs: "wordlist xs" and ys: "wordlist ys"
  have "split_ws (join [32] xs @ 32 # s) = xs @ split_ws s" if "wordlist xs" for xs s
    using that
  proof (induction "[32::nat]" xs rule: join.induct)
    case 1 then show ?case by (simp add: is_space_32)
  next
    case (2 w) then show ?case by (simp add: wordlist_def split_ws_word_app)
  next
    case (3 w v ws)
    then show ?case by (simp add: wordlist_def split_ws_word_app)
  qed
  from this[OF xs, of "join [32] ys"] show ?thesis
    by (simp add: split_ws_strip split_ws_join[OF ys])
qed

lemma scan_total:
  "j + length rest = length counts \<Longrightarrow> \<exists>b. scan ds counts j rest = Inr b"
proof (induction rest arbitrary: j)
  case Nil then show ?case by simp
next
  case (Cons d rest)
  then have j: "j < length counts" and n: "Suc j + length rest = length counts" by simp_all
  from Cons.IH[OF n] obtain b where "scan ds counts (Suc j) rest = Inr b" by blast
  then show ?case using j by (simp add: index_def)
qed

lemma find_body_total: "\<exists>b. find_body m = Inr b"
proof -
  let ?ds = "chain_delims_of m"
  obtain b where b: "scan ?ds (map word_count ?ds) 0 ?ds = Inr b"
    using scan_total[of 0 ?ds "map word_count ?ds" ?ds] by auto
  show ?thesis
  proof (cases "?ds = []")
    case True
    then show ?thesis by (simp add: find_body_def Let_def)
  next
    case False
    then have "index_last ?ds = Inr (last ?ds)"
      by (cases ?ds) (simp_all add: index_last_def)
    then show ?thesis using False
      by (simp add: find_body_def Let_def b)
  qed
qed

lemma segment_total: "\<exists>c b. segment wordc raw = Inr (c, b)"
proof -
  obtain bm where "find_body (mark wordc (normalize raw)) = Inr bm"
    using find_body_total by blast
  then show ?thesis
    by (cases "realign (normalize raw) bm") (simp add: segment_def Let_def)
qed

lemma realign_eq:
  "realign (normalize s) bm =
     (join [32] (take (cut_index (split_ws (normalize s)) (split_ws bm)) (split_ws (normalize s))),
      join [32] (drop (cut_index (split_ws (normalize s)) (split_ws bm)) (split_ws (normalize s))))"
proof -
  let ?t = "split_ws (normalize s)"
  let ?b = "split_ws bm"
  show ?thesis
  proof (cases "?t = [] \<or> ?b = [] \<or> length ?t \<le> length ?b")
    case True
    then have "realign (normalize s) bm = ([], normalize s)"
      by (simp add: realign_def)
    moreover have "cut_index ?t ?b = 0" using True by (simp add: cut_index_def)
    ultimately show ?thesis by (simp add: normalize_tidy)
  next
    case False
    let ?d = "length ?t - length ?b"
    have d: "cut_index ?t ?b = ?d" using False by (simp add: cut_index_def)
    have "realign (normalize s) bm = (strip (join [32] (take ?d ?t)), strip (join [32] (drop ?d ?t)))"
      using False by (simp add: realign_def Let_def)
    then show ?thesis
      by (simp only: d strip_join[OF wordlist_take[OF wordlist_split_ws]]
                     strip_join[OF wordlist_drop[OF wordlist_split_ws]])
  qed
qed

lemma cut_index_less: "toks \<noteq> [] \<Longrightarrow> cut_index toks btoks < length toks"
  by (auto simp: cut_index_def)

text \<open>
  Claim C1. For every input text the split succeeds, the chain is the first \<open>cut_index\<close>
  words of the normalized text joined by single spaces, the body is the remaining words
  joined by single spaces, and the chain, one space and the body, trimmed, have exactly
  the words of the normalized text, in the same order.
\<close>

theorem split_reconstructs_normalized_text:
  "\<exists>bm c b. find_body (mark wordc (normalize raw)) = Inr bm \<and>
     segment wordc raw = Inr (c, b) \<and>
     c = join [32] (take (cut_index (split_ws (normalize raw)) (split_ws bm)) (split_ws (normalize raw))) \<and>
     b = join [32] (drop (cut_index (split_ws (normalize raw)) (split_ws bm)) (split_ws (normalize raw))) \<and>
     split_ws (strip (c @ [32] @ b)) = split_ws (normalize raw)"
proof -
  let ?t = "split_ws (normalize raw)"
  obtain bm where bm: "find_body (mark wordc (normalize raw)) = Inr bm"
    using find_body_total by blast
  let ?d = "cut_index ?t (split_ws bm)"
  let ?c = "join [32] (take ?d ?t)" and ?b = "join [32] (drop ?d ?t)"
  have seg: "segment wordc raw = Inr (?c, ?b)"
    by (simp add: segment_def Let_def bm realign_eq)
  have "split_ws (strip (?c @ [32] @ ?b)) = take ?d ?t @ drop ?d ?t"
    by (rule join_append_words[OF wordlist_take[OF wordlist_split_ws] wordlist_drop[OF wordlist_split_ws]])
  then have "split_ws (strip (?c @ [32] @ ?b)) = ?t" by simp
  with bm seg show ?thesis by blast
qed

text \<open>
  Claim C6. The core is total: whatever the text and whatever the classification of word
  characters, no index operation of the pipeline fails and a pair of chain and body is
  returned; on the empty text both are empty.
\<close>

theorem segment_is_total:
  "(\<exists>c b. segment wordc raw = Inr (c, b)) \<and> segment wordc [] = Inr ([], [])"
proof
  show "\<exists>c b. segment wordc raw = Inr (c, b)" by (rule segment_total)
next
  have n: "normalize [] = []" by (simp add: normalize_def)
  have m: "mark wordc [] = []"
    by (simp add: mark_def remove_diacritics_def mark_keywords_def collapse_ws_def strip_def)
  have f: "find_body [] = Inr []"
    by (simp add: find_body_def chain_delims_of_def strip_def tilde_to_space_def)
  show "segment wordc [] = Inr ([], [])"
    by (simp add: segment_def n m f realign_def)
qed

text \<open>
  Claim C10. The body returned by the split is empty exactly when the normalized text is
  empty.
\<close>

theorem body_empty_iff_text_empty:
  "\<exists>c b. segment wordc raw = Inr (c, b) \<and> (b = [] \<longleftrightarrow> normalize raw = [])"
proof -
  let ?t = "split_ws (normalize raw)"
  obtain bm where bm: "find_body (mark wordc (normalize raw)) = Inr bm"
    using find_body_total by blast
  let ?d = "cut_index ?t (split_ws bm)"
  let ?c = "join [32] (take ?d ?t)" and ?b = "join [32] (drop ?d ?t)"
  have seg: "segment wordc raw = Inr (?c, ?b)"
    by (simp add: segment_def Let_def bm realign_eq)
  have "?b = [] \<longleftrightarrow> normalize raw = []"
  proof (cases "?t = []")
    case True
    then have "normalize raw = []" using normalize_tidy[of raw] by simp
    then show ?thesis by simp
  next
    case False
    then have ne: "normalize raw \<noteq> []" by auto
    have "drop ?d ?t \<noteq> []" using cut_index_less[OF False, of "split_ws bm"] by simp
    from join_word_ends[OF wordlist_drop[OF wordlist_split_ws] this]
    show ?thesis using ne by simp
  qed
  with seg show ?thesis by blast
qed

section \<open>The boundary scan\<close>

lemma split_on_free: "list_all (\<lambda>p. d \<notin> set p) (split_on d s)"
proof (induction s)
  case Nil show ?case by simp
next
  case (Cons c cs)
  then show ?case by (cases "split_on d cs") (simp_all)
qed

lemma set_strip: "set (strip s) \<subseteq> set s"
proof -
  have "set (strip s) \<subseteq> set (dropWhile is_space s)"
    unfolding strip_def using set_dropWhileD[of _ is_space "rev (dropWhile is_space s)"] by auto
  also have "\<dots> \<subseteq> set s" using set_dropWhileD[of _ is_space s] by auto
  finally show ?thesis .
qed

lemma strip_ends: "strip s \<noteq> [] \<Longrightarrow> \<not> is_space (hd (strip s)) \<and> \<not> is_space (last (strip s))"
proof -
  assume ne: "strip s \<noteq> []"
  let ?u = "dropWhile is_space s"
  let ?v = "dropWhile is_space (rev ?u)"
  have v: "?v \<noteq> []" using ne unfolding strip_def by simp
  have l: "\<not> is_space (last (strip s))"
    using hd_dropWhile[OF v] v by (simp only: strip_def last_rev simp_thms)
  obtain t where t: "?u = strip s @ t" 
    unfolding strip_def using rstrip_decomp[of ?u is_space] by blast
  have u: "?u \<noteq> []" using t ne by simp
  have "hd (strip s @ t) = hd (strip s)" using ne by (rule hd_append2)
  then have "hd ?u = hd (strip s)" by (simp only: t[symmetric])
  then have "\<not> is_space (hd (strip s))" using hd_dropWhile[OF u] by simp
  with l show ?thesis by simp
qed

lemma chain_delims_ok: "list_all segment_ok (chain_delims_of m)"
proof -
  have "segment_ok (strip p)" if "p \<in> set (split_on 126 m)" "strip p \<noteq> []" for p
  proof -
    have "126 \<notin> set p" using split_on_free[of 126 m] that(1) by (simp add: list_all_iff)
    then have "126 \<notin> set (strip p)" using set_strip[of p] by blast
    then show ?thesis using strip_ends[OF that(2)] that(2) by (simp add: segment_ok_def)
  qed
  then show ?thesis by (auto simp: chain_delims_of_def list_all_iff)
qed

lemma tilde_join:
  "list_all segment_ok xs \<Longrightarrow> tilde_to_space (join [126] xs) = join [32] xs"
proof (induction "[126::nat]" xs rule: join.induct)
  case 1 show ?case by (simp add: tilde_to_space_def)
next
  case (2 w)
  then have "126 \<notin> set w" by (simp add: segment_ok_def)
  then have "map (\<lambda>c. if c = 126 then 32 else c) w = w" by (induction w) auto
  then show ?case by (simp add: tilde_to_space_def)
next
  case (3 w v ws)
  then have "126 \<notin> set w" by (simp add: segment_ok_def)
  then have "map (\<lambda>c. if c = 126 then 32 else c) w = w" by (induction w) auto
  then show ?case using 3 by (simp add: tilde_to_space_def)
qed

lemma join_ok_ends:
  "list_all segment_ok xs \<Longrightarrow> xs \<noteq> [] \<Longrightarrow>
   join sep xs \<noteq> [] \<and> hd (join sep xs) = hd (hd xs) \<and> last (join sep xs) = last (last xs)"
proof (induction sep xs rule: join.induct)
  case (1 sep) then show ?case by simp
next
  case (2 sep w) then show ?case by (simp add: segment_ok_def)
next
  case (3 sep w v ws)
  then show ?case by (simp add: segment_ok_def)
qed

lemma strip_join_ok:
  assumes "list_all segment_ok xs"
  shows "strip (join [32] xs) = join [32] xs"
proof (cases "xs = []")
  case True then show ?thesis by (simp add: strip_def)
next
  case False
  have h: "segment_ok (hd xs)" and l: "segment_ok (last xs)"
    using assms False by (simp_all add: list_all_iff)
  from join_ok_ends[OF assms False, of "[32]"] h l
  have "join [32] xs \<noteq> []" "\<not> is_space (hd (join [32] xs))" "\<not> is_space (last (join [32] xs))"
    by (simp_all add: segment_ok_def)
  from strip_core[OF this, of "[]" "[]"] show ?thesis by simp
qed

lemma drop_Cons_nth:
  "drop j ds = d # rest \<Longrightarrow> j < length ds \<and> ds ! j = d \<and> drop (Suc j) ds = rest"
proof -
  assume a: "drop j ds = d # rest"
  then have j: "j < length ds" by (cases "j < length ds") simp_all
  from Cons_nth_drop_Suc[OF j] a show ?thesis using j by simp
qed

lemma scan_none:
  "rest = drop j ds \<Longrightarrow> list_all (\<lambda>d. \<not> h1 d \<and> \<not> h2 d) rest \<Longrightarrow>
   scan ds (map word_count ds) j rest = Inr []"
proof (induction rest arbitrary: j)
  case Nil show ?case by simp
next
  case (Cons d rest)
  from drop_Cons_nth[OF Cons.prems(1)[symmetric]]
  have j: "j < length ds" "ds ! j = d" "rest = drop (Suc j) ds" by simp_all
  have n: "\<not> h1 d" "\<not> (7 < word_count d \<and> \<not> has_ibn d)" and r: "list_all (\<lambda>d. \<not> h1 d \<and> \<not> h2 d) rest"
    using Cons.prems(2) by (simp_all add: h2_def)
  have i: "index (map word_count ds) j = Inr (word_count d)" using j by (simp add: index_def)
  show ?case using n Cons.IH[OF j(3) r] by (auto simp: i)
qed

lemma scan_first:
  "rest = drop j ds \<Longrightarrow> k < length rest \<Longrightarrow> h1 (rest ! k) \<or> h2 (rest ! k) \<Longrightarrow>
   list_all (\<lambda>d. \<not> h1 d \<and> \<not> h2 d) (take k rest) \<Longrightarrow>
   scan ds (map word_count ds) j rest = Inr (join [126] (drop (j + k) ds))"
proof (induction rest arbitrary: j k)
  case Nil then show ?case by simp
next
  case (Cons d rest)
  from drop_Cons_nth[OF Cons.prems(1)[symmetric]]
  have j: "j < length ds" "ds ! j = d" "rest = drop (Suc j) ds" by simp_all
  have i: "index (map word_count ds) j = Inr (word_count d)" using j by (simp add: index_def)
  show ?case
  proof (cases k)
    case 0
    then have "h1 d \<or> (7 < word_count d \<and> \<not> has_ibn d)" using Cons.prems(3) by (simp add: h2_def)
    then show ?thesis using 0 by (auto simp: i)
  next
    case (Suc k')
    then have n: "\<not> h1 d" "\<not> (7 < word_count d \<and> \<not> has_ibn d)"
      using Cons.prems(4) by (simp_all add: h2_def)
    have a: "k' < length rest" using Cons.prems(2) Suc by simp
    have b: "h1 (rest ! k') \<or> h2 (rest ! k')" using Cons.prems(3) Suc by simp
    have c: "list_all (\<lambda>d. \<not> h1 d \<and> \<not> h2 d) (take k' rest)" using Cons.prems(4) Suc by simp
    have "scan ds (map word_count ds) (Suc j) rest = Inr (join [126] (drop (Suc j + k') ds))"
      by (rule Cons.IH[OF j(3) a b c])
    then show ?thesis using n Suc by (auto simp: i)
  qed
qed

lemma list_all_drop: "list_all P xs \<Longrightarrow> list_all P (drop n xs)"
  unfolding list_all_iff by (blast dest: in_set_dropD)

lemma find_body_of_scan:
  assumes "chain_delims_of m \<noteq> []"
    and "scan (chain_delims_of m) (map word_count (chain_delims_of m)) 0 (chain_delims_of m) = Inr bm"
    and "list_all segment_ok xs"
    and "(if bm = [] then last (chain_delims_of m) else bm) = join [126] xs"
  shows "find_body m = Inr (join [32] xs)"
proof -
  have il: "index_last (chain_delims_of m) = Inr (last (chain_delims_of m))"
    using assms(1) by (cases "chain_delims_of m") (simp_all add: index_last_def)
  have "find_body m = Inr (strip (tilde_to_space (if bm = [] then last (chain_delims_of m) else bm)))"
    using assms(1) by (simp add: find_body_def Let_def assms(2) il)
  then show ?thesis
    by (simp only: assms(4) tilde_join[OF assms(3)] strip_join_ok[OF assms(3)])
qed

text \<open>
  Claim C2. For every marked text and every index \<open>j\<close> of its segment list: when segment
  \<open>j\<close> satisfies heuristic 1 (it mentions nabi or rasul) or heuristic 2, and no segment
  before it satisfies either, the scan stops there and the body candidate is the segments
  from \<open>j\<close> onward, joined by single spaces in place of the markers.
\<close>

theorem boundary_scan_first_match:
  assumes "j < length (chain_delims_of m)"
    and "h1 (chain_delims_of m ! j) \<or> h2 (chain_delims_of m ! j)"
    and "\<forall>i<j. \<not> h1 (chain_delims_of m ! i) \<and> \<not> h2 (chain_delims_of m ! i)"
  shows "find_body m = Inr (join [32] (drop j (chain_delims_of m)))"
proof -
  let ?ds = "chain_delims_of m"
  have ne: "?ds \<noteq> []" using assms(1) by auto
  have pre: "list_all (\<lambda>d. \<not> h1 d \<and> \<not> h2 d) (take j ?ds)"
    using assms(1,3) by (auto simp: list_all_iff in_set_conv_nth)
  have sc: "scan ?ds (map word_count ?ds) 0 ?ds = Inr (join [126] (drop j ?ds))"
    using scan_first[of ?ds 0 ?ds j, OF _ assms(1,2) pre] by simp
  have ok: "list_all segment_ok (drop j ?ds)" by (rule list_all_drop[OF chain_delims_ok])
  have dne: "drop j ?ds \<noteq> []" using assms(1) by simp
  have "join [126] (drop j ?ds) \<noteq> []" using join_ok_ends[OF ok dne] by simp
  then have "(if join [126] (drop j ?ds) = [] then last ?ds else join [126] (drop j ?ds))
      = join [126] (drop j ?ds)" by simp
  from find_body_of_scan[OF ne sc ok this] show ?thesis .
qed

theorem boundary_scan_first_match_witness:
  "(1::nat) < length (chain_delims_of [97, 32, 126, 32, 1606, 1576, 1610]) \<and>
   h1 (chain_delims_of [97, 32, 126, 32, 1606, 1576, 1610] ! 1) \<and>
   \<not> h1 (chain_delims_of [97, 32, 126, 32, 1606, 1576, 1610] ! 0) \<and>
   \<not> h2 (chain_delims_of [97, 32, 126, 32, 1606, 1576, 1610] ! 0) \<and>
   find_body [97, 32, 126, 32, 1606, 1576, 1610] = Inr [1606, 1576, 1610]"
proof -
  have cd: "chain_delims_of [97, 32, 126, 32, 1606, 1576, 1610] = [[97], [1606, 1576, 1610]]"
    by (simp add: chain_delims_of_def strip_def is_space_def)
  have a: "h1 [1606, 1576, 1610]" by (simp add: h1_def)
  have b: "\<not> h1 [97]" by (simp add: h1_def)
  have c: "\<not> h2 [97]" by (simp add: h2_def word_count_def is_space_def)
  show ?thesis
    using boundary_scan_first_match[of 1 "[97, 32, 126, 32, 1606, 1576, 1610]"] a b c
    by (simp add: cd)
qed

text \<open>
  Claim C4. When the segment list is not empty and no segment satisfies heuristic 1 or
  heuristic 2, the body candidate is the last segment. When no segment remains, the body
  candidate is empty, and the realignment then returns the empty chain and the whole text
  as body.
\<close>

theorem fallback_last_segment:
  "(chain_delims_of m \<noteq> [] \<longrightarrow>
      list_all (\<lambda>d. \<not> h1 d \<and> \<not> h2 d) (chain_delims_of m) \<longrightarrow>
      find_body m = Inr (last (chain_delims_of m))) \<and>
   (chain_delims_of m = [] \<longrightarrow> find_body m = Inr [] \<and> realign txt [] = ([], txt))"
proof (intro conjI impI)
  let ?ds = "chain_delims_of m"
  assume ne: "?ds \<noteq> []" and no: "list_all (\<lambda>d. \<not> h1 d \<and> \<not> h2 d) ?ds"
  have sc: "scan ?ds (map word_count ?ds) 0 ?ds = Inr []"
    using scan_none[of ?ds 0 ?ds, OF _ no] by simp
  have ok: "list_all segment_ok [last ?ds]"
    using chain_delims_ok[of m] ne by (simp add: list_all_iff)
  have "(if ([]::ustring) = [] then last ?ds else []) = join [126] [last ?ds]" by simp
  from find_body_of_scan[OF ne sc ok this] show "find_body m = Inr (last ?ds)" by simp
next
  assume "chain_delims_of m = []"
  then show "find_body m = Inr []"
    by (simp add: find_body_def Let_def strip_def tilde_to_space_def)
next
  show "realign txt [] = ([], txt)" by (simp add: realign_def)
qed

theorem fallback_last_segment_witness:
  "chain_delims_of [97, 32, 126, 32, 98] \<noteq> [] \<and>
   list_all (\<lambda>d. \<not> h1 d \<and> \<not> h2 d) (chain_delims_of [97, 32, 126, 32, 98]) \<and>
   find_body [97, 32, 126, 32, 98] = Inr [98] \<and>
   chain_delims_of [126] = [] \<and> find_body [126] = Inr [] \<and> realign [97] [] = ([], [97])"
proof -
  have cd: "chain_delims_of [97, 32, 126, 32, 98] = [[97], [98]]"
    by (simp add: chain_delims_of_def strip_def is_space_def)
  have ce: "chain_delims_of [126] = []"
    by (simp add: chain_delims_of_def strip_def)
  have n: "\<not> h1 [97]" "\<not> h1 [98]" "\<not> h2 [97]" "\<not> h2 [98]"
    by (simp_all add: h1_def h2_def word_count_def is_space_def)
  show ?thesis
    using fallback_last_segment[of "[97, 32, 126, 32, 98]" "[97]"]
          fallback_last_segment[of "[126]" "[97]"] n
    by (simp add: cd ce)
qed

section \<open>Evaluating the pipeline on concrete texts\<close>

lemma find_miss: "list_all (\<lambda>x. \<not> P x) xs \<Longrightarrow> find P xs = None"
  by (induction xs) simp_all

lemma keyword_at_Cons:
  "keyword_at wordc (c # cs) =
     (if c \<in> set [1581, 1579, 1571, 1587, 1593, 1610, 1602]
      then find (\<lambda>k. prefix k (c # cs) \<and>
               word_boundary wordc (Some (last k)) (head_opt (drop (length k) (c # cs))))
             chain_keywords
      else None)"
proof (cases "c \<in> set [1581, 1579, 1571, 1587, 1593, 1610, 1602]")
  case True
  then show ?thesis by (simp only: keyword_at_def if_True)
next
  case False
  have "find (\<lambda>k. prefix k (c # cs) \<and>
               word_boundary wordc (Some (last k)) (head_opt (drop (length k) (c # cs))))
             chain_keywords = None"
    using False by (intro find_miss) (simp add: chain_keywords_def)
  then show ?thesis using False by (simp only: keyword_at_def if_False)
qed

lemma keyword_at_Nil: "keyword_at wordc [] = None"
  by (simp add: keyword_at_def chain_keywords_def)

lemmas eval_normalize =
  normalize_def remove_punct_def is_punct_def remove_honorifics_def remove_benediction_def
  alt_matcher_def honorifics_def benediction_def collapse_ws_def ws_matcher_def strip_def
  is_space_def

lemmas eval_mark =
  collapse_ws_def ws_matcher_def strip_def is_space_def
  mark_def mark_keywords_def remove_diacritics_def is_diacritic_def
  keyword_matcher_def keyword_span_def keyword_at_Cons keyword_at_Nil chain_keywords_def
  word_boundary_def is_wordc_def arabic_wordc_def

text \<open>
  Claim C3. A segment of eight or more words that contains the word bin or ibn must not
  trigger heuristic 2. The pattern of the code asks for a space on both sides of the word,
  so it misses the word at the start or at the end of a segment. On the text
  "ibn a b t th j h kh an zyd" (ten words, the first segment being the first eight) the
  first segment contains the word ibn, has eight words and does not satisfy heuristic 1;
  heuristic 2 fires on it all the same, and the split returns the empty chain and the
  whole text as body.
\<close>

theorem h2_fires_on_leading_ibn:
  "chain_delims_of (mark arabic_wordc
      [1575, 1576, 1606, 32, 1575, 32, 1576, 32, 1578, 32, 1579, 32, 1580, 32, 1581, 32, 1582,
       32, 1593, 1606, 32, 1586, 1610, 1583]) =
     [[1575, 1576, 1606, 32, 1575, 32, 1576, 32, 1578, 32, 1579, 32, 1580, 32, 1581, 32, 1582],
      [1593, 1606, 32, 1586, 1610, 1583]] \<and>
   split_ws [1575, 1576, 1606, 32, 1575, 32, 1576, 32, 1578, 32, 1579, 32, 1580, 32, 1581, 32, 1582] =
     [[1575, 1576, 1606], [1575], [1576], [1578], [1579], [1580], [1581], [1582]] \<and>
   \<not> h1 [1575, 1576, 1606, 32, 1575, 32, 1576, 32, 1578, 32, 1579, 32, 1580, 32, 1581, 32, 1582] \<and>
   h2 [1575, 1576, 1606, 32, 1575, 32, 1576, 32, 1578, 32, 1579, 32, 1580, 32, 1581, 32, 1582] \<and>
   segment arabic_wordc
      [1575, 1576, 1606, 32, 1575, 32, 1576, 32, 1578, 32, 1579, 32, 1580, 32, 1581, 32, 1582,
       32, 1593, 1606, 32, 1586, 1610, 1583] =
     Inr ([], [1575, 1576, 1606, 32, 1575, 32, 1576, 32, 1578, 32, 1579, 32, 1580, 32, 1581, 32, 1582,
       32, 1593, 1606, 32, 1586, 1610, 1583])"
proof -
  let ?t = "[1575, 1576, 1606, 32, 1575, 32, 1576, 32, 1578, 32, 1579, 32, 1580, 32, 1581, 32, 1582,
       32, 1593, 1606, 32, 1586, 1610, 1583] :: ustring"
  let ?m = "[1575, 1576, 1606, 32, 1575, 32, 1576, 32, 1578, 32, 1579, 32, 1580, 32, 1581, 32, 1582,
       32, 126, 32, 1593, 1606, 32, 1586, 1610, 1583] :: ustring"
  let ?s0 = "[1575, 1576, 1606, 32, 1575, 32, 1576, 32, 1578, 32, 1579, 32, 1580, 32, 1581, 32, 1582] :: ustring"
  let ?s1 = "[1593, 1606, 32, 1586, 1610, 1583] :: ustring"
  have n: "normalize ?t = ?t" by (simp add: eval_normalize)
  have m: "mark arabic_wordc ?t = ?m" by (simp add: eval_mark)
  have cd: "chain_delims_of ?m = [?s0, ?s1]"
    by (simp add: chain_delims_of_def strip_def is_space_def)
  have w0: "split_ws ?s0 = [[1575, 1576, 1606], [1575], [1576], [1578], [1579], [1580], [1581], [1582]]"
    by (simp add: is_space_def)
  have a: "\<not> h1 ?s0" by (simp add: h1_def)
  have i: "\<not> has_ibn ?s0" by (simp add: has_ibn_def)
  have wc: "word_count ?s0 = 8" by (simp only: word_count_def w0) simp
  have b: "h2 ?s0" by (simp only: h2_def wc i) simp
  have sc: "scan [?s0, ?s1] (map word_count [?s0, ?s1]) 0 [?s0, ?s1] = Inr (join [126] [?s0, ?s1])"
    using a i by (simp add: wc index_def)
  have fb: "find_body ?m = Inr ?t"
    by (simp only: find_body_def Let_def cd sc)
       (simp add: tilde_to_space_def strip_def is_space_def)
  have r: "realign ?t ?t = ([], ?t)" by (simp add: realign_def)
  have sg: "segment arabic_wordc ?t = Inr ([], ?t)"
    by (simp only: segment_def Let_def n m fb sum.case r)
  show ?thesis by (simp only: m cd w0 a b sg simp_thms)
qed

section \<open>English text normalization: quotes\<close>

lemma squeeze_quote_run:
  "squeeze_quotes (34 # cs) = 34 # squeeze_quotes (dropWhile (\<lambda>x. x = 34) cs)"
  by (induction cs) simp_all

lemma squeeze_other: "c \<noteq> 34 \<Longrightarrow> squeeze_quotes (c # cs) = c # squeeze_quotes cs"
  by (cases cs) simp_all

lemma re_sub_quotes_Cons:
  "re_sub quotes_matcher p (c # cs) =
     (if c = 34
      then 34 # re_sub quotes_matcher
                  (if cs \<noteq> [] \<and> hd cs = 34 then Some (last (c # takeWhile (\<lambda>x. x = 34) cs)) else Some c)
                  (dropWhile (\<lambda>x. x = 34) cs)
      else c # re_sub quotes_matcher (Some c) cs)"
proof (cases "c = 34")
  case False
  then have "quotes_matcher p (c # cs) = None" by (simp add: quotes_matcher_def)
  then show ?thesis using False by simp
next
  case True
  show ?thesis
  proof (cases "cs \<noteq> [] \<and> hd cs = 34")
    case T2: True
    then have "takeWhile (\<lambda>x. x = 34) cs \<noteq> []" by (cases cs) simp_all
    then have "quotes_matcher p (c # cs) = Some (Suc (length (takeWhile (\<lambda>x. x = 34) cs)), [34])"
      using True by (cases "takeWhile (\<lambda>x. x = 34) cs") (simp_all add: quotes_matcher_def)
    then show ?thesis using True T2
      by (simp flip: takeWhile_eq_take dropWhile_eq_drop)
  next
    case F2: False
    then have tw: "takeWhile (\<lambda>x. x = 34) cs = []" "dropWhile (\<lambda>x. x = 34) cs = cs"
      by (cases cs; simp)+
    have "quotes_matcher p (c # cs) = None" using True by (simp add: quotes_matcher_def tw)
    then show ?thesis using True F2 by (simp add: tw)
  qed
qed

lemma re_sub_quotes_squeeze: "re_sub quotes_matcher p s = squeeze_quotes s"
proof (induction "length s" arbitrary: s p rule: less_induct)
  case less
  show ?case
  proof (cases s)
    case Nil then show ?thesis by simp
  next
    case (Cons c cs)
    have l1: "length (dropWhile (\<lambda>x. x = 34) cs) < length s"
      using Cons by (simp add: less_Suc_eq_le length_dropWhile_le)
    have l2: "length cs < length s" using Cons by simp
    show ?thesis
    proof (cases "c = 34")
      case True
      show ?thesis unfolding Cons True
        by (simp only: re_sub_quotes_Cons[of p 34 cs] less[OF l1] squeeze_quote_run) simp
    next
      case False
      show ?thesis unfolding Cons
        by (simp only: re_sub_quotes_Cons[of p c cs] less[OF l2] squeeze_other[OF False]) (simp add: False)
    qed
  qed
qed

lemma squeeze_no_pair: "\<not> re_search [[34, 34]] (squeeze_quotes s)"
proof (induction s rule: squeeze_quotes.induct)
  case 1 show ?case by simp
next
  case (2 c) show ?case by simp
next
  case (3 c d cs)
  show ?case
  proof (cases "d = 34")
    case True
    then show ?thesis using 3 by (cases "c = 34") (simp_all add: squeeze_quote_run)
  next
    case False
    then show ?thesis using 3 by (simp add: squeeze_other)
  qed
qed

lemma strip_char_decomp:
  "\<exists>a b. s = a @ strip_char q s @ b \<and> list_all (\<lambda>c. c = q) a \<and> list_all (\<lambda>c. c = q) b"
proof -
  let ?P = "\<lambda>c. c = q"
  obtain b where b: "dropWhile ?P s = strip_char q s @ b" "list_all ?P b"
    unfolding strip_char_def using rstrip_decomp[of "dropWhile ?P s" ?P] by blast
  have "s = takeWhile ?P s @ dropWhile ?P s" by simp
  then have "s = takeWhile ?P s @ strip_char q s @ b" by (simp only: b(1))
  moreover have "list_all ?P (takeWhile ?P s)" by (rule list_all_takeWhile)
  ultimately show ?thesis using b(2) by blast
qed

lemma strip_char_ends:
  assumes "strip_char q s \<noteq> []"
  shows "hd (strip_char q s) \<noteq> q \<and> last (strip_char q s) \<noteq> q"
proof -
  let ?P = "\<lambda>c. c = q"
  let ?u = "dropWhile ?P s"
  let ?v = "dropWhile ?P (rev ?u)"
  have v: "?v \<noteq> []" using assms unfolding strip_char_def by simp
  have l: "last (strip_char q s) \<noteq> q"
    using hd_dropWhile[OF v] by (simp only: strip_char_def last_rev simp_thms)
  obtain t where t: "?u = strip_char q s @ t"
    unfolding strip_char_def using rstrip_decomp[of ?u ?P] by blast
  have u: "?u \<noteq> []" using t assms by simp
  have "hd (strip_char q s @ t) = hd (strip_char q s)" using assms by (rule hd_append2)
  then have "hd ?u = hd (strip_char q s)" by (simp only: t[symmetric])
  then have "hd (strip_char q s) \<noteq> q" using hd_dropWhile[OF u] by simp
  with l show ?thesis by simp
qed

text \<open>
  Claim C9, as amended. For every row the processing succeeds and stores one and the same
  string into \<open>text_en\<close> and \<open>body_en\<close>: the English text in which, when it starts with a
  quote, all the leading and all the trailing quotes are stripped (not one pair only), and
  in which then every run of two or more quotes is collapsed to one quote. The stripped
  text is the text without a prefix and a suffix made of quotes, and it neither starts nor
  ends with a quote; the result holds no two adjacent quotes.
\<close>

theorem english_text_normalization:
  "\<exists>row'. process_row wordc row = Inr row' \<and>
     text_en row' = Some (normalize_en (text_en row)) \<and>
     body_en row' = Some (normalize_en (text_en row)) \<and>
     normalize_en (text_en row) =
       squeeze_quotes (if prefix [34] (or_empty (text_en row))
                       then strip_char 34 (or_empty (text_en row)) else or_empty (text_en row)) \<and>
     \<not> re_search [[34, 34]] (normalize_en (text_en row)) \<and>
     (\<exists>a b. or_empty (text_en row) = a @ strip_char 34 (or_empty (text_en row)) @ b \<and>
         list_all (\<lambda>c. c = 34) a \<and> list_all (\<lambda>c. c = 34) b) \<and>
     (strip_char 34 (or_empty (text_en row)) \<noteq> [] \<longrightarrow>
        hd (strip_char 34 (or_empty (text_en row))) \<noteq> 34 \<and>
        last (strip_char 34 (or_empty (text_en row))) \<noteq> 34)"
proof -
  let ?s = "or_empty (text_en row)"
  let ?txt = "normalize (or_empty (text_ar row))"
  obtain bm where bm: "find_body (mark wordc ?txt) = Inr bm"
    using find_body_total by blast
  obtain c b where cb: "realign ?txt bm = (c, b)" by (cases "realign ?txt bm")
  let ?row = "row\<lparr>text_en := Some (normalize_en (text_en row)),
                    body_en := Some (normalize_en (text_en row)), text_ar := Some ?txt,
                    chain_ar := Some c, body_ar := Some b\<rparr>"
  have p: "process_row wordc row = Inr ?row"
    by (simp add: process_row_def Let_def bm cb)
  have n: "normalize_en (text_en row) =
       squeeze_quotes (if prefix [34] ?s then strip_char 34 ?s else ?s)"
    by (simp only: normalize_en_def Let_def re_sub_quotes_squeeze)
  have np: "\<not> re_search [[34, 34]] (normalize_en (text_en row))"
    by (simp only: n squeeze_no_pair simp_thms)
  have e: "strip_char 34 ?s \<noteq> [] \<longrightarrow>
        hd (strip_char 34 ?s) \<noteq> 34 \<and> last (strip_char 34 ?s) \<noteq> 34"
    using strip_char_ends[of 34 ?s] by blast
  have "text_en ?row = Some (normalize_en (text_en row))"
       "body_en ?row = Some (normalize_en (text_en row))" by simp_all
  with p n np e strip_char_decomp[of ?s 34] show ?thesis by blast
qed

theorem english_text_normalization_witness:
  "process_row arabic_wordc
     \<lparr>bookId = 1, num = 1, text_en = Some [34, 34, 97, 34, 34, 98, 34], body_en = None,
      text_ar = None, chain_ar = None, body_ar = None\<rparr> =
   Inr \<lparr>bookId = 1, num = 1, text_en = Some [97, 34, 98], body_en = Some [97, 34, 98],
      text_ar = Some [], chain_ar = Some [], body_ar = Some []\<rparr> \<and>
   strip_char 34 [34, 34, 97, 34, 34, 98, 34] = [97, 34, 34, 98] \<and>
   squeeze_quotes [97, 34, 34, 98] = [97, 34, 98] \<and>
   \<not> re_search [[34, 34]] [97, 34, 98]"
proof -
  let ?row = "\<lparr>bookId = 1, num = 1, text_en = Some [34, 34, 97, 34, 34, 98, 34], body_en = None,
      text_ar = None, chain_ar = None, body_ar = None\<rparr>"
  have s: "strip_char 34 [34, 34, 97, 34, 34, 98, 34] = [97, 34, 34, 98]"
    by (simp add: strip_char_def)
  obtain row' where r: "process_row arabic_wordc ?row = Inr row'"
     "text_en row' = Some (normalize_en (text_en ?row))"
     "strip_char 34 (or_empty (text_en ?row)) \<noteq> [] \<longrightarrow>
        hd (strip_char 34 (or_empty (text_en ?row))) \<noteq> 34 \<and>
        last (strip_char 34 (or_empty (text_en ?row))) \<noteq> 34"
    using english_text_normalization[of arabic_wordc ?row] by blast
  have n: "normalize [] = []" by (simp add: normalize_def)
  have m: "mark arabic_wordc [] = []"
    by (simp add: mark_def remove_diacritics_def mark_keywords_def collapse_ws_def strip_def)
  have f: "find_body [] = Inr []"
    by (simp add: find_body_def chain_delims_of_def strip_def tilde_to_space_def)
  have e: "normalize_en (Some [34, 34, 97, 34, 34, 98, 34]) = [97, 34, 98]"
    by (simp add: normalize_en_def or_empty_def s quotes_matcher_def)
  have "process_row arabic_wordc ?row =
     Inr \<lparr>bookId = 1, num = 1, text_en = Some [97, 34, 98], body_en = Some [97, 34, 98],
      text_ar = Some [], chain_ar = Some [], body_ar = Some []\<rparr>"
    by (simp add: process_row_def Let_def or_empty_def n m f e realign_def)
  then show ?thesis using r(3) by (simp add: s or_empty_def)
qed

text \<open>
  Claim C9 as stated fails: on the text of two quotes, the letter a and two quotes, the
  code strips both quotes at each end and returns the letter alone, where stripping
  exactly one quote at each end leaves a quote on each side of the letter.
\<close>

theorem strips_all_quotes_counterexample:
  "normalize_en (Some [34, 34, 97, 34, 34]) = [97] \<and>
   normalize_en (Some [34, 34, 97, 34, 34]) \<noteq>
     re_sub quotes_matcher None (butlast (tl [34, 34, 97, 34, 34]))"
  by (simp add: normalize_en_def or_empty_def strip_char_def quotes_matcher_def)

section \<open>Normalizing twice\<close>

lemma alt_matcher_None:
  "\<not> list_ex (\<lambda>a. prefix a s) alts \<Longrightarrow> alt_matcher alts rep p s = None"
proof -
  assume "\<not> list_ex (\<lambda>a. prefix a s) alts"
  then have "find (\<lambda>a. prefix a s) alts = None"
    by (simp add: find_None_iff list_ex_iff)
  then show ?thesis by (simp add: alt_matcher_def)
qed

lemma alt_sub_id: "\<not> re_search alts s \<Longrightarrow> re_sub (alt_matcher alts rep) p s = s"
proof (induction s arbitrary: p)
  case Nil show ?case by simp
next
  case (Cons c cs)
  then have a: "\<not> list_ex (\<lambda>a. prefix a (c # cs)) alts" and b: "\<not> re_search alts cs"
    by simp_all
  show ?case by (simp add: alt_matcher_None[OF a] Cons.IH[OF b])
qed

lemma list_all_sub_take: "list_all P xs \<Longrightarrow> list_all P (takeWhile Q xs)"
  unfolding list_all_iff by (blast dest: set_takeWhileD)

lemma list_all_sub_drop: "list_all P xs \<Longrightarrow> list_all P (dropWhile Q xs)"
  unfolding list_all_iff by (blast dest: set_dropWhileD)

lemma alt_sub_all: "list_all P s \<Longrightarrow> list_all P (re_sub (alt_matcher alts []) p s)"
proof (induction "alt_matcher alts []" p s rule: re_sub.induct)
  case (1 prev) show ?case by simp
next
  case (2 prev c cs)
  have c: "P c" and cs: "list_all P cs" using 2(3) by simp_all
  show ?case
  proof (cases "alt_matcher alts [] prev (c # cs)")
    case None
    then show ?thesis using 2(1)[OF None cs] c by simp
  next
    case (Some r)
    obtain n rep where r: "r = (n, rep)" by (cases r)
    have rep: "rep = []" using Some r by (simp add: alt_matcher_def split: option.splits)
    have "list_all P (drop (n - 1) cs)" by (rule list_all_drop[OF cs])
    from 2(2)[OF Some[unfolded r] refl this] show ?thesis using Some r rep by simp
  qed
qed

lemma split_ws_all: "list_all P s \<Longrightarrow> list_all (list_all P) (split_ws s)"
proof (induction s rule: split_ws.induct)
  case 1 show ?case by simp
next
  case (2 c cs)
  have c: "P c" and cs: "list_all P cs" using 2(3) by simp_all
  show ?case
  proof (cases "is_space c")
    case True
    then show ?thesis using 2(1)[OF True cs] by simp
  next
    case False
    then show ?thesis
      using 2(2)[OF False list_all_sub_drop[OF cs]] c list_all_sub_take[OF cs] by simp
  qed
qed

lemma join_all: "list_all (list_all P) ws \<Longrightarrow> list_all P sep \<Longrightarrow> list_all P (join sep ws)"
  by (induction sep ws rule: join.induct) simp_all

lemma normalize_no_punct: "list_all (\<lambda>c. \<not> is_punct c) (normalize s)"
proof (cases "s = []")
  case True then show ?thesis by (simp add: normalize_def)
next
  case False
  let ?P = "\<lambda>c. \<not> is_punct c"
  let ?x = "remove_benediction (remove_honorifics (remove_punct s))"
  have "list_all ?P (remove_punct s)" by (simp add: remove_punct_def list_all_iff)
  then have "list_all ?P ?x"
    unfolding remove_benediction_def remove_honorifics_def by (intro alt_sub_all)
  then have "list_all (list_all ?P) (split_ws ?x)" by (rule split_ws_all)
  moreover have "list_all ?P [32]" by (simp add: is_punct_def)
  ultimately have "list_all ?P (join [32] (split_ws ?x))" by (rule join_all)
  then show ?thesis using False by (simp only: normalize_def if_False strip_collapse_ws)
qed

lemma remove_punct_normalize: "remove_punct (normalize s) = normalize s"
  using normalize_no_punct[of s] by (simp add: remove_punct_def list_all_iff)

text \<open>
  Claim C7, as amended. Normalization is idempotent on every text whose normalized form
  contains none of the honorifics and not the benediction: a second pass then changes
  nothing.
\<close>

theorem normalize_idempotent_when_phrase_free:
  assumes "\<not> re_search honorifics (normalize s)"
    and "\<not> re_search [benediction] (normalize s)"
  shows "normalize (normalize s) = normalize s"
proof (cases "normalize s = []")
  case True then show ?thesis by (simp add: normalize_def)
next
  case False
  have h: "remove_honorifics (normalize s) = normalize s"
    unfolding remove_honorifics_def by (rule alt_sub_id[OF assms(1)])
  have b: "remove_benediction (normalize s) = normalize s"
    unfolding remove_benediction_def by (rule alt_sub_id[OF assms(2)])
  have "normalize (normalize s) = strip (collapse_ws (normalize s))"
    using False by (simp add: normalize_def[of "normalize s"] remove_punct_normalize h b)
  then show ?thesis by (simp only: strip_collapse_ws normalize_tidy)
qed

theorem normalize_idempotent_when_phrase_free_witness:
  "\<not> re_search honorifics (normalize [1602, 1575, 1604, 32, 46]) \<and>
   \<not> re_search [benediction] (normalize [1602, 1575, 1604, 32, 46]) \<and>
   normalize [1602, 1575, 1604, 32, 46] = [1602, 1575, 1604] \<and>
   normalize (normalize [1602, 1575, 1604, 32, 46]) = normalize [1602, 1575, 1604, 32, 46]"
proof -
  have n: "normalize [1602, 1575, 1604, 32, 46] = [1602, 1575, 1604]"
    by (simp add: eval_normalize)
  have a: "\<not> re_search honorifics (normalize [1602, 1575, 1604, 32, 46])"
    by (simp add: n honorifics_def)
  have b: "\<not> re_search [benediction] (normalize [1602, 1575, 1604, 32, 46])"
    by (simp add: n benediction_def)
  from normalize_idempotent_when_phrase_free[OF a b] a b n show ?thesis by simp
qed

text \<open>
  Claim C7 as stated fails. The phrases are removed before the whitespace is collapsed:
  on radiya, two spaces, allah anhu, the first pass finds no honorific and only collapses
  the two spaces, which produces the honorific; the second pass removes it.
\<close>

theorem normalize_not_idempotent_counterexample:
  "normalize [1585, 1590, 1609, 32, 32, 1575, 1604, 1604, 1607, 32, 1593, 1606, 1607] =
     [1585, 1590, 1609, 32, 1575, 1604, 1604, 1607, 32, 1593, 1606, 1607] \<and>
   normalize (normalize [1585, 1590, 1609, 32, 32, 1575, 1604, 1604, 1607, 32, 1593, 1606, 1607]) = [] \<and>
   normalize (normalize [1585, 1590, 1609, 32, 32, 1575, 1604, 1604, 1607, 32, 1593, 1606, 1607]) \<noteq>
     normalize [1585, 1590, 1609, 32, 32, 1575, 1604, 1604, 1607, 32, 1593, 1606, 1607]"
proof -
  have a: "normalize [1585, 1590, 1609, 32, 32, 1575, 1604, 1604, 1607, 32, 1593, 1606, 1607] =
     [1585, 1590, 1609, 32, 1575, 1604, 1604, 1607, 32, 1593, 1606, 1607]"
    by (simp add: eval_normalize)
  have b: "normalize [1585, 1590, 1609, 32, 1575, 1604, 1604, 1607, 32, 1593, 1606, 1607] = []"
    by (simp add: eval_normalize)
  show ?thesis by (simp only: a b) simp
qed

section \<open>Removing the honorifics\<close>

lemma find_SomeD: "find P xs = Some a \<Longrightarrow> a \<in> set xs \<and> P a"
  by (induction xs) (auto split: if_splits)

lemma re_search_Nil: "[] \<notin> set alts \<Longrightarrow> \<not> re_search alts []"
  by (auto simp: list_ex_iff)

lemma weave_Cons_Cons: "weave ((c # g) # gs) ms = c # weave (g # gs) ms"
  by (cases ms) simp_all

lemma weave_prefix: "prefix g (weave (g # gs) ms)"
  by (cases ms) simp_all

lemma alt_matcher_Some:
  "alt_matcher alts rep p s = Some r \<Longrightarrow>
   \<exists>a. a \<in> set alts \<and> prefix a s \<and> r = (length a, rep)"
  by (auto simp: alt_matcher_def split: option.splits dest: find_SomeD)

lemma alt_sub_weave:
  assumes "[] \<notin> set alts"
  shows "\<exists>gaps ms. length gaps = Suc (length ms) \<and>
           list_all (\<lambda>g. \<not> re_search alts g) gaps \<and> list_all (\<lambda>m. m \<in> set alts) ms \<and>
           s = weave gaps ms \<and> re_sub (alt_matcher alts []) p s = concat gaps"
proof (induction "alt_matcher alts []" p s rule: re_sub.induct)
  case (1 prev)
  have "length [[]::ustring] = Suc (length ([]::ustring list))" by simp
  moreover have "list_all (\<lambda>g. \<not> re_search alts g) [[]]" using re_search_Nil[OF assms] by simp
  moreover have "([]::ustring) = weave [[]] []" by simp
  moreover have "re_sub (alt_matcher alts []) prev [] = concat [[]]" by simp
  moreover have "list_all (\<lambda>m. m \<in> set alts) []" by simp
  ultimately show ?case by blast
next
  case (2 prev c cs)
  show ?case
  proof (cases "alt_matcher alts [] prev (c # cs)")
    case None
    from 2(1)[OF None] obtain gaps ms where ih:
      "length gaps = Suc (length ms)" "list_all (\<lambda>g. \<not> re_search alts g) gaps"
      "list_all (\<lambda>m. m \<in> set alts) ms" "cs = weave gaps ms"
      "re_sub (alt_matcher alts []) (Some c) cs = concat gaps" by blast
    obtain g gs where gs: "gaps = g # gs" using ih(1) by (cases gaps) simp_all
    have nf: "find (\<lambda>a. prefix a (c # cs)) alts = None"
      using None by (simp add: alt_matcher_def split: option.splits)
    have "\<not> prefix a (c # g)" if "a \<in> set alts" for a
    proof
      assume "prefix a (c # g)"
      moreover have "prefix (c # g) (c # cs)" using weave_prefix[of g gs ms] ih(4) gs by simp
      ultimately have "prefix a (c # cs)" by (rule prefix_order.trans)
      then show False using nf that by (simp add: find_None_iff)
    qed
    then have "\<not> list_ex (\<lambda>a. prefix a (c # g)) alts" by (simp add: list_ex_iff)
    then have ng: "\<not> re_search alts (c # g)" using ih(2) gs by simp
    have a: "length ((c # g) # gs) = Suc (length ms)" using ih(1) gs by simp
    have b: "list_all (\<lambda>g. \<not> re_search alts g) ((c # g) # gs)" using ng ih(2) gs by simp
    have d: "c # cs = weave ((c # g) # gs) ms" using ih(4) gs by (simp add: weave_Cons_Cons)
    have e: "re_sub (alt_matcher alts []) prev (c # cs) = concat ((c # g) # gs)"
      using None ih(5) gs by simp
    from a b ih(3) d e show ?thesis by blast
  next
    case (Some r)
    from alt_matcher_Some[OF Some] obtain a where a: "a \<in> set alts" "prefix a (c # cs)" "r = (length a, [])"
      by blast
    from 2(2)[OF Some[unfolded a(3)] refl] obtain gaps ms where ih:
      "length gaps = Suc (length ms)" "list_all (\<lambda>g. \<not> re_search alts g) gaps"
      "list_all (\<lambda>m. m \<in> set alts) ms" "drop (length a - 1) cs = weave gaps ms"
      "re_sub (alt_matcher alts []) (Some (last (c # take (length a - 1) cs))) (drop (length a - 1) cs) = concat gaps"
      by blast
    have ane: "a \<noteq> []" using a(1) assms by auto
    have "c # cs = a @ drop (length a) (c # cs)" using a(2) by (auto simp: prefix_def)
    moreover have "drop (length a) (c # cs) = drop (length a - 1) cs" using ane by (cases a) simp_all
    ultimately have sp: "c # cs = a @ drop (length a - 1) cs" by simp
    have x: "length ([] # gaps) = Suc (length (a # ms))" using ih(1) by simp
    have y: "list_all (\<lambda>g. \<not> re_search alts g) ([] # gaps)" using ih(2) re_search_Nil[OF assms] by simp
    have z: "list_all (\<lambda>m. m \<in> set alts) (a # ms)" using ih(3) a(1) by simp
    have w: "c # cs = weave ([] # gaps) (a # ms)" using sp ih(4) by simp
    have v: "re_sub (alt_matcher alts []) prev (c # cs) = concat ([] # gaps)"
      using Some a(3) ih(5) by simp
    from x y z w v show ?thesis by blast
  qed
qed

lemma alt_sub_length: "length (re_sub (alt_matcher alts []) p s) \<le> length s"
proof (induction "alt_matcher alts []" p s rule: re_sub.induct)
  case (1 prev) show ?case by simp
next
  case (2 prev c cs)
  show ?case
  proof (cases "alt_matcher alts [] prev (c # cs)")
    case None
    then show ?thesis using 2(1)[OF None] by simp
  next
    case (Some r)
    from alt_matcher_Some[OF Some] obtain a :: ustring where a: "r = (length a, [])" by blast
    from 2(2)[OF Some[unfolded a] refl] Some a show ?thesis by simp
  qed
qed

lemma alt_sub_shrinks:
  "[] \<notin> set alts \<Longrightarrow> re_search alts s \<Longrightarrow>
   length (re_sub (alt_matcher alts []) p s) < length s"
proof (induction s arbitrary: p)
  case Nil
  then show ?case using re_search_Nil[of alts] by simp
next
  case (Cons c cs)
  show ?case
  proof (cases "alt_matcher alts [] p (c # cs)")
    case None
    then have "find (\<lambda>a. prefix a (c # cs)) alts = None"
      by (simp add: alt_matcher_def split: option.splits)
    then have "\<not> list_ex (\<lambda>a. prefix a (c # cs)) alts" by (simp add: find_None_iff list_ex_iff)
    then have "re_search alts cs" using Cons.prems by simp
    from Cons.IH[OF Cons.prems(1) this] None show ?thesis by simp
  next
    case (Some r)
    from alt_matcher_Some[OF Some] obtain a :: ustring where a: "r = (length a, [])" by blast
    have "length (re_sub (alt_matcher alts []) (Some (last (c # take (length a - 1) cs))) (drop (length a - 1) cs))
        \<le> length (drop (length a - 1) cs)" by (rule alt_sub_length)
    then show ?thesis using Some a by simp
  qed
qed

lemma re_search_iff: "re_search alts s \<longleftrightarrow> (\<exists>a\<in>set alts. \<exists>u v. s = u @ a @ v)"
proof (induction s)
  case Nil
  show ?case by (auto simp: list_ex_iff)
next
  case (Cons c cs)
  show ?case
  proof
    assume "re_search alts (c # cs)"
    then consider "list_ex (\<lambda>a. prefix a (c # cs)) alts" | "re_search alts cs" by auto
    then show "\<exists>a\<in>set alts. \<exists>u v. c # cs = u @ a @ v"
    proof cases
      case 1
      then obtain a v where "a \<in> set alts" "c # cs = a @ v" by (auto simp: list_ex_iff prefix_def)
      then have "c # cs = [] @ a @ v" by simp
      with \<open>a \<in> set alts\<close> show ?thesis by blast
    next
      case 2
      then obtain a u v where "a \<in> set alts" "cs = u @ a @ v" using Cons.IH by blast
      then have "c # cs = (c # u) @ a @ v" by simp
      with \<open>a \<in> set alts\<close> show ?thesis by blast
    qed
  next
    assume "\<exists>a\<in>set alts. \<exists>u v. c # cs = u @ a @ v"
    then obtain a u v where a: "a \<in> set alts" and e: "c # cs = u @ a @ v" by blast
    show "re_search alts (c # cs)"
    proof (cases u)
      case Nil
      then have "prefix a (c # cs)" using e by (simp add: prefix_def)
      then show ?thesis using a by (auto simp: list_ex_iff)
    next
      case (Cons d u')
      then have "cs = u' @ a @ v" using e by simp
      then have "re_search alts cs" using a Cons.IH by blast
      then show ?thesis by simp
    qed
  qed
qed

lemma re_search_filter:
  assumes "list_all (list_all P) alts" and "re_search alts s"
  shows "re_search alts (filter P s)"
proof -
  from assms(2) obtain a u v where a: "a \<in> set alts" and e: "s = u @ a @ v"
    unfolding re_search_iff by blast
  have "list_all P a" using assms(1) a by (simp add: list_all_iff)
  then have "filter P a = a" by (simp add: list_all_iff)
  then have "filter P s = filter P u @ a @ filter P v" using e by simp
  with a show ?thesis unfolding re_search_iff by blast
qed

lemma honorifics_no_punct: "list_all (list_all (\<lambda>c. \<not> is_punct c)) honorifics"
  by (simp add: honorifics_def is_punct_def)

lemma honorifics_nonempty: "[] \<notin> set honorifics"
  by (simp add: honorifics_def)

lemma honorific_longest:
  assumes "find (\<lambda>a. prefix a u) honorifics = Some a" and "b \<in> set honorifics" and "prefix b u"
  shows "length b \<le> length a"
proof -
  let ?h1 = "[1585, 1590, 1609, 32, 1575, 1604, 1604, 1607, 32, 1593, 1606, 1607, 1575] :: ustring"
  let ?h2 = "[1585, 1590, 1609, 32, 1575, 1604, 1604, 1607, 32, 1593, 1606, 1607, 1605, 1575] :: ustring"
  have x: "\<not> (prefix ?h1 u \<and> prefix ?h2 u)"
  proof
    assume "prefix ?h1 u \<and> prefix ?h2 u"
    then have "prefix ?h1 ?h2 \<or> prefix ?h2 ?h1" using prefix_same_cases by blast
    then show False by simp
  qed
  show ?thesis
    using assms x unfolding honorifics_def
    by (auto split: if_splits)
qed

text \<open>
  Claim C8, as amended. For every input text: the honorific removal deletes occurrences of
  the four alternatives from the punctuation-free text and leaves the stretches between
  the deletions, each of which is free of every alternative; it deletes at least one span
  when the text contains an honorific; the alternative deleted at a position is the
  longest alternative present at that position; and the normalized text has its words
  separated by single spaces, with no whitespace at its ends. The normalized text may
  still contain the phrase, where the text on both sides of a deletion, or around
  collapsed whitespace, joins into it.
\<close>

theorem honorific_removal:
  "(\<exists>gaps ms. length gaps = Suc (length ms) \<and>
       list_all (\<lambda>g. \<not> re_search honorifics g) gaps \<and>
       list_all (\<lambda>m. m \<in> set honorifics) ms \<and>
       remove_punct s = weave gaps ms \<and>
       remove_honorifics (remove_punct s) = concat gaps) \<and>
   (re_search honorifics s \<longrightarrow>
       length (remove_honorifics (remove_punct s)) < length (remove_punct s)) \<and>
   (\<forall>a b. find (\<lambda>a. prefix a u) honorifics = Some a \<longrightarrow> b \<in> set honorifics \<longrightarrow>
       prefix b u \<longrightarrow> length b \<le> length a) \<and>
   join [32] (split_ws (normalize s)) = normalize s"
proof (intro conjI)
  show "\<exists>gaps ms. length gaps = Suc (length ms) \<and>
       list_all (\<lambda>g. \<not> re_search honorifics g) gaps \<and>
       list_all (\<lambda>m. m \<in> set honorifics) ms \<and>
       remove_punct s = weave gaps ms \<and>
       remove_honorifics (remove_punct s) = concat gaps"
    unfolding remove_honorifics_def by (rule alt_sub_weave[OF honorifics_nonempty])
next
  show "re_search honorifics s \<longrightarrow>
       length (remove_honorifics (remove_punct s)) < length (remove_punct s)"
  proof
    assume "re_search honorifics s"
    then have "re_search honorifics (remove_punct s)"
      unfolding remove_punct_def by (rule re_search_filter[OF honorifics_no_punct])
    then show "length (remove_honorifics (remove_punct s)) < length (remove_punct s)"
      unfolding remove_honorifics_def by (rule alt_sub_shrinks[OF honorifics_nonempty])
  qed
next
  show "\<forall>a b. find (\<lambda>a. prefix a u) honorifics = Some a \<longrightarrow> b \<in> set honorifics \<longrightarrow>
       prefix b u \<longrightarrow> length b \<le> length a"
    using honorific_longest by blast
next
  show "join [32] (split_ws (normalize s)) = normalize s" by (rule normalize_tidy)
qed

theorem honorific_removal_witness:
  "re_search honorifics [1585, 1590, 1609, 32, 1575, 1604, 1604, 1607, 32, 1593, 1606, 1607, 1605, 1575] \<and>
   length (remove_honorifics (remove_punct
      [1585, 1590, 1609, 32, 1575, 1604, 1604, 1607, 32, 1593, 1606, 1607, 1605, 1575]))
     < length (remove_punct
      [1585, 1590, 1609, 32, 1575, 1604, 1604, 1607, 32, 1593, 1606, 1607, 1605, 1575]) \<and>
   find (\<lambda>a. prefix a [1585, 1590, 1609, 32, 1575, 1604, 1604, 1607, 32, 1593, 1606, 1607, 1605, 1575]) honorifics
     = Some [1585, 1590, 1609, 32, 1575, 1604, 1604, 1607, 32, 1593, 1606, 1607, 1605, 1575] \<and>
   [1585, 1590, 1609, 32, 1575, 1604, 1604, 1607, 32, 1593, 1606, 1607] \<in> set honorifics \<and>
   prefix [1585, 1590, 1609, 32, 1575, 1604, 1604, 1607, 32, 1593, 1606, 1607 :: nat]
          [1585, 1590, 1609, 32, 1575, 1604, 1604, 1607, 32, 1593, 1606, 1607, 1605, 1575] \<and>
   length [1585, 1590, 1609, 32, 1575, 1604, 1604, 1607, 32, 1593, 1606, 1607 :: nat]
     \<le> length [1585, 1590, 1609, 32, 1575, 1604, 1604, 1607, 32, 1593, 1606, 1607, 1605, 1575 :: nat]"
proof -
  let ?s = "[1585, 1590, 1609, 32, 1575, 1604, 1604, 1607, 32, 1593, 1606, 1607, 1605, 1575] :: ustring"
  let ?b = "[1585, 1590, 1609, 32, 1575, 1604, 1604, 1607, 32, 1593, 1606, 1607] :: ustring"
  have r: "re_search honorifics ?s" by (simp add: honorifics_def)
  have f: "find (\<lambda>a. prefix a ?s) honorifics = Some ?s" by (simp add: honorifics_def)
  have m: "?b \<in> set honorifics" by (simp add: honorifics_def)
  have p: "prefix ?b ?s" by simp
  from honorific_removal[of ?s ?s] r f m p show ?thesis by blast
qed

text \<open>
  Claim C8 as stated fails. The text radiya allah anhu, a space, radiya, two spaces, allah
  anhu contains the phrase; the removal deletes its first twelve characters, the second,
  irregularly spaced copy is not matched, and collapsing the whitespace afterwards turns
  it into the exact phrase, which is the normalized text.
\<close>

theorem honorific_survives_counterexample:
  "re_search [[1585, 1590, 1609, 32, 1575, 1604, 1604, 1607, 32, 1593, 1606, 1607]]
     [1585, 1590, 1609, 32, 1575, 1604, 1604, 1607, 32, 1593, 1606, 1607, 32,
      1585, 1590, 1609, 32, 32, 1575, 1604, 1604, 1607, 32, 1593, 1606, 1607] \<and>
   normalize
     [1585, 1590, 1609, 32, 1575, 1604, 1604, 1607, 32, 1593, 1606, 1607, 32,
      1585, 1590, 1609, 32, 32, 1575, 1604, 1604, 1607, 32, 1593, 1606, 1607] =
     [1585, 1590, 1609, 32, 1575, 1604, 1604, 1607, 32, 1593, 1606, 1607] \<and>
   re_search [[1585, 1590, 1609, 32, 1575, 1604, 1604, 1607, 32, 1593, 1606, 1607]]
     (normalize
       [1585, 1590, 1609, 32, 1575, 1604, 1604, 1607, 32, 1593, 1606, 1607, 32,
        1585, 1590, 1609, 32, 32, 1575, 1604, 1604, 1607, 32, 1593, 1606, 1607])"
proof -
  have n: "normalize
     [1585, 1590, 1609, 32, 1575, 1604, 1604, 1607, 32, 1593, 1606, 1607, 32,
      1585, 1590, 1609, 32, 32, 1575, 1604, 1604, 1607, 32, 1593, 1606, 1607] =
     [1585, 1590, 1609, 32, 1575, 1604, 1604, 1607, 32, 1593, 1606, 1607]"
    by (simp add: eval_normalize)
  show ?thesis by (simp only: n) simp
qed

section \<open>Markers and the marked text\<close>

lemma keyword_at_in: "keyword_at wordc s = Some k \<Longrightarrow> k \<in> set chain_keywords"
  unfolding keyword_at_def by (blast dest: find_SomeD)

lemma keyword_span_in: "keyword_span wordc p s = Some (n, k) \<Longrightarrow> k \<in> set chain_keywords"
  by (auto simp: keyword_span_def split: if_splits option.splits list.splits dest: keyword_at_in)

lemma keywords_unmarked: "k \<in> set chain_keywords \<Longrightarrow> 126 \<notin> set k"
  by (auto simp: chain_keywords_def)

lemma unmark_sub:
  "126 \<notin> set u \<Longrightarrow>
   filter (\<lambda>c. c \<noteq> 126) (re_sub (keyword_matcher wordc) p u) =
   re_sub (\<lambda>prev s. case keyword_span wordc prev s of
                       None \<Rightarrow> None | Some (n, k) \<Rightarrow> Some (n, 32 # k)) p u"
proof (induction "keyword_matcher wordc" p u rule: re_sub.induct)
  case (1 prev) show ?case by simp
next
  case (2 prev c cs)
  have c: "c \<noteq> 126" and cs: "126 \<notin> set cs" using 2(3) by simp_all
  show ?case
  proof (cases "keyword_span wordc prev (c # cs)")
    case None
    then have m: "keyword_matcher wordc prev (c # cs) = None" by (simp add: keyword_matcher_def)
    from 2(1)[OF m cs] show ?thesis using None m c by simp
  next
    case (Some r)
    obtain n k where r: "r = (n, k)" by (cases r)
    have m: "keyword_matcher wordc prev (c # cs) = Some (n, [126, 32] @ k)"
      using Some r by (simp add: keyword_matcher_def)
    have k: "126 \<notin> set k" using keyword_span_in[OF Some[unfolded r]] by (rule keywords_unmarked)
    then have fk: "filter (\<lambda>c. c \<noteq> 126) k = k" by (induction k) auto
    have d: "126 \<notin> set (drop (n - 1) cs)" using cs by (auto dest: in_set_dropD)
    from 2(2)[OF m refl d] show ?thesis using Some r m fk by simp
  qed
qed

lemma split_ws_word_then:
  assumes "list_all (\<lambda>x. \<not> is_space x) w" and "r = [] \<or> is_space (hd r)"
  shows "split_ws (w @ r) = (if w = [] then [] else [w]) @ split_ws r"
proof (cases w)
  case Nil then show ?thesis by simp
next
  case (Cons a v)
  have a: "\<not> is_space a" and v: "list_all (\<lambda>x. \<not> is_space x) v" using assms(1) Cons by simp_all
  have r: "takeWhile (\<lambda>x. \<not> is_space x) r = []" "dropWhile (\<lambda>x. \<not> is_space x) r = r"
    using assms(2) by (cases r; simp)+
  have "takeWhile (\<lambda>x. \<not> is_space x) (v @ r) = v" "dropWhile (\<lambda>x. \<not> is_space x) (v @ r) = r"
    by (simp_all only: takeWhile_list_all[OF v] dropWhile_list_all[OF v] r append_Nil2)
  then show ?thesis using a Cons by simp
qed

lemma dropWhile_starts: "dropWhile (\<lambda>x. \<not> P x) cs = [] \<or> P (hd (dropWhile (\<lambda>x. \<not> P x) cs))"
  using hd_dropWhile[of "\<lambda>x. \<not> P x" cs] by blast

lemma filter_keeps_start:
  assumes "\<And>c. is_space c \<Longrightarrow> p c" and "r = [] \<or> is_space (hd r)"
  shows "filter p r = [] \<or> is_space (hd (filter p r))"
proof (cases r)
  case Nil then show ?thesis by simp
next
  case (Cons a v)
  then have "is_space a" using assms(2) by simp
  then show ?thesis using assms(1) Cons by simp
qed

lemma split_ws_filter:
  assumes keep: "\<And>c. is_space c \<Longrightarrow> p c"
  shows "split_ws (filter p s) = filter (\<lambda>w. w \<noteq> []) (map (filter p) (split_ws s))"
proof (induction s rule: split_ws.induct)
  case 1 show ?case by simp
next
  case (2 c cs)
  show ?case
  proof (cases "is_space c")
    case True
    then show ?thesis using 2(1)[OF True] keep[OF True] by simp
  next
    case False
    let ?w = "takeWhile (\<lambda>x. \<not> is_space x) cs"
    let ?r = "dropWhile (\<lambda>x. \<not> is_space x) cs"
    have w: "list_all (\<lambda>x. \<not> is_space x) (filter p (c # ?w))"
      using False list_all_takeWhile[of "\<lambda>x. \<not> is_space x" cs] by (simp add: list_all_iff)
    have r: "filter p ?r = [] \<or> is_space (hd (filter p ?r))"
      by (rule filter_keeps_start[OF keep dropWhile_starts])
    have "filter p (c # cs) = filter p (c # ?w) @ filter p ?r"
      using takeWhile_dropWhile_id[of "\<lambda>x. \<not> is_space x" cs]
      by (metis append_Cons filter_append)
    then have "split_ws (filter p (c # cs)) =
        (if filter p (c # ?w) = [] then [] else [filter p (c # ?w)]) @ split_ws (filter p ?r)"
      by (simp only: split_ws_word_then[OF w r])
    also have "\<dots> = filter (\<lambda>w. w \<noteq> []) (map (filter p) ((c # ?w) # split_ws ?r))"
      by (simp only: 2(2)[OF False]) simp
    finally show ?thesis using False by simp
  qed
qed

lemma unmark_words:
  "split_ws (filter (\<lambda>c. c \<noteq> 126) (strip (collapse_ws m))) = split_ws (filter (\<lambda>c. c \<noteq> 126) m)"
proof -
  have keep: "\<And>c. is_space c \<Longrightarrow> c \<noteq> 126" by (auto simp: is_space_def)
  have "split_ws (filter (\<lambda>c. c \<noteq> 126) (strip (collapse_ws m))) =
        filter (\<lambda>w. w \<noteq> []) (map (filter (\<lambda>c. c \<noteq> 126)) (split_ws (strip (collapse_ws m))))"
    by (rule split_ws_filter[of "\<lambda>c. c \<noteq> 126", OF keep])
  also have "\<dots> = filter (\<lambda>w. w \<noteq> []) (map (filter (\<lambda>c. c \<noteq> 126)) (split_ws m))"
    by (simp only: split_ws_strip_collapse)
  also have "\<dots> = split_ws (filter (\<lambda>c. c \<noteq> 126) m)"
    by (rule split_ws_filter[of "\<lambda>c. c \<noteq> 126", OF keep, symmetric])
  finally show ?thesis .
qed

text \<open>
  Claim C5, as amended. On a text free of the marker character, the tokenizer replaces each
  matched span, the keyword together with a waw attached in front of it, by the marker, a
  space and the keyword alone, and copies every other character: deleting the markers from
  the substituted text gives the text with every matched span replaced by a space and its
  keyword, and deleting the markers from the marked text and collapsing the whitespace
  gives the whitespace-collapsed form of that same text. The attached waw is dropped, so
  the text itself does not come back.
\<close>

theorem marker_insertion:
  assumes "126 \<notin> set t"
  shows "filter (\<lambda>c. c \<noteq> 126) (mark_keywords wordc (remove_diacritics t)) =
           respace wordc (remove_diacritics t) \<and>
         strip (collapse_ws (filter (\<lambda>c. c \<noteq> 126) (mark wordc t))) =
           strip (collapse_ws (respace wordc (remove_diacritics t)))"
proof -
  have u: "126 \<notin> set (remove_diacritics t)" using assms by (simp add: remove_diacritics_def)
  have a: "filter (\<lambda>c. c \<noteq> 126) (mark_keywords wordc (remove_diacritics t)) =
           respace wordc (remove_diacritics t)"
    unfolding mark_keywords_def respace_def by (rule unmark_sub[OF u])
  have "split_ws (filter (\<lambda>c. c \<noteq> 126) (mark wordc t)) =
        split_ws (respace wordc (remove_diacritics t))"
    unfolding mark_def by (simp only: unmark_words a)
  then have "strip (collapse_ws (filter (\<lambda>c. c \<noteq> 126) (mark wordc t))) =
           strip (collapse_ws (respace wordc (remove_diacritics t)))"
    by (simp only: strip_collapse_ws)
  with a show ?thesis by simp
qed

theorem marker_insertion_witness:
  "126 \<notin> set [1608, 1602, 1575, 1604 :: nat] \<and>
   filter (\<lambda>c. c \<noteq> 126) (mark_keywords arabic_wordc (remove_diacritics [1608, 1602, 1575, 1604])) =
     respace arabic_wordc (remove_diacritics [1608, 1602, 1575, 1604]) \<and>
   respace arabic_wordc (remove_diacritics [1608, 1602, 1575, 1604]) = [32, 1602, 1575, 1604] \<and>
   strip (collapse_ws (filter (\<lambda>c. c \<noteq> 126) (mark arabic_wordc [1608, 1602, 1575, 1604]))) =
     [1602, 1575, 1604]"
proof -
  have h: "126 \<notin> set [1608, 1602, 1575, 1604 :: nat]" by simp
  have r: "respace arabic_wordc (remove_diacritics [1608, 1602, 1575, 1604]) = [32, 1602, 1575, 1604]"
    by (simp add: respace_def eval_mark)
  have s: "strip (collapse_ws [32, 1602, 1575, 1604]) = [1602, 1575, 1604]"
    by (simp add: eval_mark)
  from marker_insertion[OF h, of arabic_wordc] show ?thesis
    by (simp only: r s) simp
qed

text \<open>
  Claim C5 as stated fails. The one-word text wa-qala is normalized and free of
  diacritics; its marked text is the marker, a space and qala; deleting the marker and
  collapsing the whitespace gives qala, without the waw.
\<close>

theorem conjunction_dropped_counterexample:
  "remove_diacritics (normalize [1608, 1602, 1575, 1604]) = [1608, 1602, 1575, 1604] \<and>
   mark arabic_wordc [1608, 1602, 1575, 1604] = [126, 32, 1602, 1575, 1604] \<and>
   strip (collapse_ws (filter (\<lambda>c. c \<noteq> 126) (mark arabic_wordc [1608, 1602, 1575, 1604]))) \<noteq>
     [1608, 1602, 1575, 1604]"
proof -
  have n: "normalize [1608, 1602, 1575, 1604] = [1608, 1602, 1575, 1604]"
    by (simp add: eval_normalize)
  have d: "remove_diacritics [1608, 1602, 1575, 1604] = [1608, 1602, 1575, 1604]"
    by (simp add: remove_diacritics_def is_diacritic_def)
  have m: "mark arabic_wordc [1608, 1602, 1575, 1604] = [126, 32, 1602, 1575, 1604]"
    by (simp add: eval_mark)
  have s: "strip (collapse_ws (filter (\<lambda>c. c \<noteq> 126) [126, 32, 1602, 1575, 1604])) = [1602, 1575, 1604]"
    by (simp add: eval_mark)
  show ?thesis by (simp only: n d m s) simp
qed

end
